theory Spec2Isabelle
  imports Main "HOL-Library.AList" "HOL-Library.Sublist"
begin

section \<open>Strings\<close>

text \<open>
  The module \<^verbatim>\<open>aiocqhttp/message.py\<close> works on Python \<^verbatim>\<open>str\<close> values. They are
  modelled as \<^typ>\<open>string\<close>, a list of characters. Every function below looks at
  single characters only and singles out ASCII ones, so a character outside ASCII
  behaves like any other ordinary character.
\<close>

text \<open>
  \<^verbatim>\<open>str.replace(old, new)\<close>: scan from the left; where \<^verbatim>\<open>old\<close> starts, emit
  \<^verbatim>\<open>new\<close> and continue behind the occurrence, so occurrences never overlap. For the
  empty \<^verbatim>\<open>old\<close> Python puts \<^verbatim>\<open>new\<close> before every character and at the end.
\<close>

function replace :: "string \<Rightarrow> string \<Rightarrow> string \<Rightarrow> string" where
  "replace old new s =
     (if old = [] then new @ concat (map (\<lambda>c. c # new) s)
      else if s = [] then []
      else if prefix old s then new @ replace old new (drop (length old) s)
      else hd s # replace old new (tl s))"
  by pat_completeness auto
termination
  by (relation "measure (\<lambda>(old, new, s). length s)") (auto simp: neq_Nil_conv)

declare replace.simps [simp del]

text \<open>
  \<^verbatim>\<open>
  def escape(s: str, *, escape_comma: bool = True) -> str:
      s = s.replace('&', '&amp;') \
          .replace('[', '&#91;') \
          .replace(']', '&#93;')
      if escape_comma:
          s = s.replace(',', '&#44;')
      return s
  \<close>
\<close>

definition escape :: "string \<Rightarrow> bool \<Rightarrow> string" where
  "escape s escape_comma =
     (let s1 = replace ''&'' ''&amp;'' s;
          s2 = replace ''['' ''&#91;'' s1;
          s3 = replace '']'' ''&#93;'' s2
      in if escape_comma then replace '','' ''&#44;'' s3 else s3)"

text \<open>
  \<^verbatim>\<open>
  def unescape(s: str) -> str:
      return s.replace('&#44;', ',') \
          .replace('&#91;', '[') \
          .replace('&#93;', ']') \
          .replace('&amp;', '&')
  \<close>
\<close>

definition unescape :: "string \<Rightarrow> string" where
  "unescape s =
     replace ''&amp;'' ''&''
       (replace ''&#93;'' '']''
         (replace ''&#91;'' ''[''
           (replace ''&#44;'' '','' s)))"

text \<open>A string contains \<open>sub\<close> when \<open>sub\<close> is a prefix of one of its suffixes.\<close>

fun contains :: "string \<Rightarrow> string \<Rightarrow> bool" where
  "contains sub [] = (sub = [])"
| "contains sub (c # cs) = (prefix sub (c # cs) \<or> contains sub cs)"

definition has_escape_sequence :: "string \<Rightarrow> bool" where
  "has_escape_sequence s =
     (contains ''&amp;'' s \<or> contains ''&#91;'' s \<or> contains ''&#93;'' s \<or> contains ''&#44;'' s)"

text \<open>\<^verbatim>\<open>sep.join(xs)\<close>\<close>

fun join :: "string \<Rightarrow> string list \<Rightarrow> string" where
  "join sep [] = []"
| "join sep [x] = x"
| "join sep (x # y # ys) = x @ sep @ join sep (y # ys)"

text \<open>\<^verbatim>\<open>s.split(sep)\<close> for a one-character separator: never an empty list.\<close>

fun split :: "char \<Rightarrow> string \<Rightarrow> string list" where
  "split sep [] = [[]]"
| "split sep (c # cs) =
     (if c = sep then [] # split sep cs
      else (case split sep cs of [] \<Rightarrow> [[c]] | p # ps \<Rightarrow> (c # p) # ps))"

text \<open>
  \<^verbatim>\<open>s.split(sep, maxsplit=1)\<close>: one piece when \<^verbatim>\<open>sep\<close> does not occur, otherwise the
  text before the first \<^verbatim>\<open>sep\<close> and the text behind it.
\<close>

definition split1 :: "char \<Rightarrow> string \<Rightarrow> string list" where
  "split1 sep s =
     (if sep \<in> set s then [takeWhile (\<lambda>c. c \<noteq> sep) s, tl (dropWhile (\<lambda>c. c \<noteq> sep) s)]
      else [s])"

text \<open>
  \<^verbatim>\<open>s.lstrip()\<close> drops leading whitespace. Among the characters of the model Python
  counts as whitespace the codes 9 to 13, 28 to 32, 133 and 160.
\<close>

definition is_space :: "char \<Rightarrow> bool" where
  "is_space c =
     (let n = (of_char c :: nat)
      in (9 \<le> n \<and> n \<le> 13) \<or> (28 \<le> n \<and> n \<le> 32) \<or> n = 133 \<or> n = 160)"

definition lstrip :: "string \<Rightarrow> string" where
  "lstrip s = dropWhile is_space s"

text \<open>\<^verbatim>\<open>s.lstrip(',')\<close>\<close>

definition lstrip_comma :: "string \<Rightarrow> string" where
  "lstrip_comma s = dropWhile (\<lambda>c. c = CHR '','') s"

section \<open>Errors, params dicts and the store\<close>

text \<open>
  Every \<^verbatim>\<open>raise\<close> of the module, and every exception its expressions can raise on
  the values of the model, is a value of \<open>error\<close>; the \<^verbatim>\<open>ValueError\<close>s are named
  after the method that raises them.
\<close>

datatype error =
    ValueError_segment   \<comment> \<open>the "type" field cannot be None or empty\<close>
  | ValueError_init      \<comment> \<open>the msg argument is not recognizable\<close>
  | ValueError_add       \<comment> \<open>the addend is not a valid message\<close>
  | ValueError_append    \<comment> \<open>the object is not a valid message segment\<close>
  | ValueError_extend    \<comment> \<open>the object is not a valid message\<close>
  | ValueError_unpack    \<comment> \<open>not enough values to unpack (expected 2, got 1)\<close>
  | KeyError string
  | AttributeError string
  | TypeError

text \<open>
  The \<^verbatim>\<open>data\<close> of a segment is a \<^verbatim>\<open>Dict[str, str]\<close>: an association list with
  unique keys, in insertion order. Assigning to a key that is present keeps its
  position, assigning to a new key appends it (\<^const>\<open>AList.update\<close>).
\<close>

type_synonym params = "(string \<times> string) list"

definition dict_getitem :: "params \<Rightarrow> string \<Rightarrow> error + string" where
  "dict_getitem d k = (case map_of d k of None \<Rightarrow> Inl (KeyError k) | Some v \<Rightarrow> Inr v)"

definition dict_get :: "params \<Rightarrow> string \<Rightarrow> string \<Rightarrow> string" where
  "dict_get d k dflt = (case map_of d k of None \<Rightarrow> dflt | Some v \<Rightarrow> v)"

definition dict_setitem :: "params \<Rightarrow> string \<Rightarrow> string \<Rightarrow> params" where
  "dict_setitem d k v = AList.update k v d"

text \<open>
  The methods of \<^verbatim>\<open>Message\<close> write to one place only: the \<^verbatim>\<open>'text'\<close> entry of a
  segment's \<^verbatim>\<open>data\<close> dict (\<^verbatim>\<open>self[-1].data['text'] += ...\<close>). The two entries of the
  segment itself, \<^verbatim>\<open>'type'\<close> and \<^verbatim>\<open>'data'\<close>, are set by the constructor and never
  written again by the module. So the store holds the \<^verbatim>\<open>data\<close> dicts, and a segment
  is the pair of its type and the address of its \<^verbatim>\<open>data\<close> dict; two segments with the
  same address share one dict, as two Python segments built from the same mapping
  do. A segment built from a mapping without a \<^verbatim>\<open>'data'\<close> key has no such entry:
  \<open>seg_data\<close> is \<open>None\<close>.
\<close>

type_synonym addr = nat
type_synonym heap = "params list"

definition alloc :: "heap \<Rightarrow> params \<Rightarrow> heap \<times> addr" where
  "alloc h d = (h @ [d], length h)"

record segment =
  seg_type :: string
  seg_data :: "addr option"

text \<open>A plain \<^verbatim>\<open>dict\<close> handed to the module, with the two keys the module reads.\<close>

record rawdict =
  raw_type :: "string option"
  raw_data :: "addr option"

text \<open>The values an \<^verbatim>\<open>Any\<close> parameter of the module is given.\<close>

datatype pyarg =
    ANone
  | AInt int
  | AStr string
  | ADict rawdict
  | ASegment segment
  | AList "pyarg list"
  | AMessage "segment list"

section \<open>MessageSegment\<close>

text \<open>
  \<^verbatim>\<open>
  def __init__(self, d: Dict[str, Any] = None, *,
               type: str = None, data: Dict[str, str] = None):
      super().__init__()
      if isinstance(d, dict) and d.get('type'):
          self.update(d)
      elif type:
          self['type'] = type
          self['data'] = data or {}
      else:
          raise ValueError('the "type" field cannot be None or empty')
  \<close>
  A \<^verbatim>\<open>MessageSegment\<close> is a \<^verbatim>\<open>dict\<close> too. \<^verbatim>\<open>data or {}\<close> keeps a non-empty dict and
  replaces \<^verbatim>\<open>None\<close> and the empty dict by a new empty dict.
\<close>

definition segment_init_kw :: "heap \<Rightarrow> string option \<Rightarrow> addr option \<Rightarrow> error + heap \<times> segment" where
  "segment_init_kw h type data =
     (case type of
        None \<Rightarrow> Inl ValueError_segment
      | Some t \<Rightarrow>
          if t = [] then Inl ValueError_segment
          else (case data of
                  None \<Rightarrow> (let (h', a) = alloc h [] in Inr (h', \<lparr>seg_type = t, seg_data = Some a\<rparr>))
                | Some a \<Rightarrow>
                    if h ! a \<noteq> [] then Inr (h, \<lparr>seg_type = t, seg_data = Some a\<rparr>)
                    else (let (h', a') = alloc h [] in Inr (h', \<lparr>seg_type = t, seg_data = Some a'\<rparr>))))"

definition segment_init :: "heap \<Rightarrow> pyarg \<Rightarrow> string option \<Rightarrow> addr option \<Rightarrow> error + heap \<times> segment" where
  "segment_init h d type data =
     (case d of
        ADict r \<Rightarrow>
          (case raw_type r of
             None \<Rightarrow> segment_init_kw h type data
           | Some t \<Rightarrow>
               if t \<noteq> [] then Inr (h, \<lparr>seg_type = t, seg_data = raw_data r\<rparr>)
               else segment_init_kw h type data)
      | ASegment s \<Rightarrow>
          if seg_type s \<noteq> [] then Inr (h, \<lparr>seg_type = seg_type s, seg_data = seg_data s\<rparr>)
          else segment_init_kw h type data
      | _ \<Rightarrow> segment_init_kw h type data)"

text \<open>
  \<^verbatim>\<open>
  def __getitem__(self, item):
      if item not in ('type', 'data'):
          raise KeyError(f'the key "{item}" is not allowed')
      return super().__getitem__(item)

  def __getattr__(self, item):
      try:
          return self.__getitem__(item)
      except KeyError:
          raise AttributeError(f'the attribute "{item}" is not allowed')
  \<close>
  \<^verbatim>\<open>seg['type']\<close> and \<^verbatim>\<open>seg.type\<close> are \<^const>\<open>seg_type\<close>: the key is always there.
\<close>

definition getitem_data :: "segment \<Rightarrow> error + addr" where
  "getitem_data s = (case seg_data s of None \<Rightarrow> Inl (KeyError ''data'') | Some a \<Rightarrow> Inr a)"

definition getattr_data :: "segment \<Rightarrow> error + addr" where
  "getattr_data s =
     (case getitem_data s of Inl e \<Rightarrow> Inl (AttributeError ''data'') | Inr a \<Rightarrow> Inr a)"

text \<open>
  \<^verbatim>\<open>
  def __str__(self):
      if self.type == 'text':
          return escape(self.data.get('text', ''), escape_comma=False)

      params = ','.join(('{}={}'.format(k, escape(str(v)))
                         for k, v in self.data.items()))
      if params:
          params = ',' + params
      return '[CQ:{type}{params}]'.format(type=self.type, params=params)
  \<close>
\<close>

definition segment_str :: "heap \<Rightarrow> segment \<Rightarrow> error + string" where
  "segment_str h s =
     (if seg_type s = ''text'' then
        (case getattr_data s of
           Inl e \<Rightarrow> Inl e
         | Inr a \<Rightarrow> Inr (escape (dict_get (h ! a) ''text'' []) False))
      else
        (case getattr_data s of
           Inl e \<Rightarrow> Inl e
         | Inr a \<Rightarrow>
             (let params = join '','' (map (\<lambda>(k, v). k @ ''='' @ escape v True) (h ! a));
                  params = (if params \<noteq> [] then '','' @ params else params)
              in Inr (''[CQ:'' @ seg_type s @ params @ '']''))))"

text \<open>The typed builders used below.\<close>

definition segment_text :: "heap \<Rightarrow> string \<Rightarrow> error + heap \<times> segment" where
  "segment_text h text =
     (let (h', a) = alloc h [(''text'', text)] in segment_init_kw h' (Some ''text'') (Some a))"

definition segment_image :: "heap \<Rightarrow> string \<Rightarrow> error + heap \<times> segment" where
  "segment_image h file =
     (let (h', a) = alloc h [(''file'', file)] in segment_init_kw h' (Some ''image'') (Some a))"

section \<open>Parsing\<close>

text \<open>
  \<^verbatim>\<open>
  re.finditer(r'\[CQ:(?P<type>[a-zA-Z0-9-_.]+)'
              r'(?P<params>'
              r'(?:,[a-zA-Z0-9-_.]+=?[^,\]]*)*'
              r'),?\]',
              msg_str)
  \<close>
  In the class \<^verbatim>\<open>[a-zA-Z0-9-_.]\<close> the hyphen behind the range \<^verbatim>\<open>0-9\<close> is a literal.
  The class \<^verbatim>\<open>[^,\]]\<close> has every character but the comma and the closing bracket,
  newlines too.
\<close>

definition is_key_char :: "char \<Rightarrow> bool" where
  "is_key_char c =
     (let n = (of_char c :: nat)
      in (97 \<le> n \<and> n \<le> 122) \<or> (65 \<le> n \<and> n \<le> 90) \<or> (48 \<le> n \<and> n \<le> 57)
         \<or> c = CHR ''-'' \<or> c = CHR ''_'' \<or> c = CHR ''.'')"

definition is_value_char :: "char \<Rightarrow> bool" where
  "is_value_char c = (c \<noteq> CHR '','' \<and> c \<noteq> CHR '']'')"

text \<open>
  The expression as a value, and the search of a backtracking matcher: \<open>rx_match a s\<close>
  lists what can be left of \<open>s\<close> behind a match of \<open>a\<close> at its start, in the order in
  which the matcher tries: a greedy \<^verbatim>\<open>?\<close> and \<^verbatim>\<open>*\<close> first take what they can and then
  give it back. (Python ends a \<^verbatim>\<open>*\<close> whose body has matched the empty string; no body
  here can.) The first entry of the list is the match Python reports.
\<close>

datatype rx = Chr char | Cls "char \<Rightarrow> bool" | Seq rx rx | Opt rx | Star rx

fun rx_match :: "rx \<Rightarrow> string \<Rightarrow> string list" where
  "rx_match (Chr c) s = (case s of [] \<Rightarrow> [] | x # xs \<Rightarrow> if x = c then [xs] else [])"
| "rx_match (Cls P) s = (case s of [] \<Rightarrow> [] | x # xs \<Rightarrow> if P x then [xs] else [])"
| "rx_match (Seq a b) s = concat (map (rx_match b) (rx_match a s))"
| "rx_match (Opt a) s = rx_match a s @ [s]"
| "rx_match (Star a) s =
     concat (map (\<lambda>r. if length r < length s then rx_match (Star a) r else []) (rx_match a s)) @ [s]"

definition rx_plus :: "rx \<Rightarrow> rx" where
  "rx_plus a = Seq a (Star a)"

definition rx_head :: rx where
  "rx_head = Seq (Chr CHR ''['') (Seq (Chr CHR ''C'') (Seq (Chr CHR ''Q'') (Chr CHR '':'')))"

definition rx_type :: rx where
  "rx_type = rx_plus (Cls is_key_char)"

definition rx_group :: rx where
  "rx_group =
     Seq (Chr CHR '','')
       (Seq (rx_plus (Cls is_key_char)) (Seq (Opt (Chr CHR ''='')) (Star (Cls is_value_char))))"

definition rx_params :: rx where
  "rx_params = Star rx_group"

definition rx_tail :: rx where
  "rx_tail = Seq (Opt (Chr CHR '','')) (Chr CHR '']'')"

text \<open>
  The matches of the whole expression at the start of \<open>s\<close>, in the order of the search,
  each with the text of the groups \<^verbatim>\<open>type\<close> and \<^verbatim>\<open>params\<close> and the text behind the match.
\<close>

definition cq_candidates :: "string \<Rightarrow> (string \<times> string \<times> string) list" where
  "cq_candidates s =
     concat (map (\<lambda>r0.
       concat (map (\<lambda>r1.
         concat (map (\<lambda>r2.
           map (\<lambda>r3. (take (length r0 - length r1) r0, take (length r1 - length r2) r1, r3))
             (rx_match rx_tail r2))
           (rx_match rx_params r1)))
         (rx_match rx_type r0)))
       (rx_match rx_head s))"

text \<open>
  Python's matcher backtracks, but on this expression there is nothing to choose.
  A key character is neither a comma nor a bracket, so the type is the longest run
  of key characters, and it must be followed by a comma or a bracket. One group
  \<^verbatim>\<open>,[a-zA-Z0-9-_.]+=?[^,\]]*\<close> is a comma, a key character, and then (whatever
  \<^verbatim>\<open>+\<close> and \<^verbatim>\<open>=?\<close> take) characters other than comma and bracket; what follows a
  group starts with a comma or a bracket, so the group runs up to the next of these.
  Behind the type or a group: a bracket ends the match; a comma before a bracket is
  the optional trailing comma; a comma before a key character starts a group, and
  cannot be the trailing comma; anything else fails, and giving back groups does not
  help, since each group starts with a comma that is followed by a key character.

  The model uses this deterministic scan; \<open>cq_match_backtracking\<close> below proves that
  it returns the first match of the search above, and none when there is none.

  \<open>cq_groups\<close> matches \<^verbatim>\<open>(?:,[a-zA-Z0-9-_.]+=?[^,\]]*)*,?\]\<close> at the start of its
  argument and returns the text of the groups and the text behind the match.
\<close>

function cq_groups :: "string \<Rightarrow> (string \<times> string) option" where
  "cq_groups s =
     (case s of
        [] \<Rightarrow> None
      | c # cs \<Rightarrow>
          if c = CHR '']'' then Some ([], cs)
          else if c = CHR '','' then
            (case cs of
               [] \<Rightarrow> None
             | d # ds \<Rightarrow>
                 if d = CHR '']'' then Some ([], ds)
                 else if is_key_char d then
                   (case cq_groups (dropWhile is_value_char cs) of
                      None \<Rightarrow> None
                    | Some (ps, rest) \<Rightarrow> Some (CHR '','' # takeWhile is_value_char cs @ ps, rest))
                 else None)
          else None)"
  by pat_completeness auto
termination
proof (relation "measure length")
  show "wf (measure length)" by simp
next
  fix s :: string and c cs d ds
  assume "s = c # cs"
  moreover have "length (dropWhile is_value_char cs) \<le> length cs"
    by (rule length_dropWhile_le)
  ultimately show "(dropWhile is_value_char cs, s) \<in> measure length" by simp
qed

declare cq_groups.simps [simp del]

text \<open>
  The whole expression at the start of the argument: the groups \<^verbatim>\<open>type\<close> and
  \<^verbatim>\<open>params\<close> and the text behind the match.
\<close>

definition cq_match :: "string \<Rightarrow> (string \<times> string \<times> string) option" where
  "cq_match s =
     (if prefix ''[CQ:'' s then
        (let t = drop 4 s; type = takeWhile is_key_char t
         in if type = [] then None
            else (case cq_groups (dropWhile is_key_char t) of
                    None \<Rightarrow> None
                  | Some (ps, rest) \<Rightarrow> Some (type, ps, rest)))
      else None)"

text \<open>
  \<^verbatim>\<open>
  def iter_function_name_and_extra() -> Iterable[Tuple[str, str]]:
      text_begin = 0
      for cqcode in re.finditer(..., msg_str):
          yield 'text', msg_str[text_begin:cqcode.pos + cqcode.start()]
          text_begin = cqcode.pos + cqcode.end()
          yield cqcode.group('type'), cqcode.group('params').lstrip(',')
      yield 'text', msg_str[text_begin:]
  \<close>
  \<^verbatim>\<open>finditer\<close> tries the expression at every position from the left and goes on
  behind a match. The first argument is \<^verbatim>\<open>msg_str[text_begin:pos]\<close>, the text passed
  since the last match, the second is \<^verbatim>\<open>msg_str[pos:]\<close>.
\<close>

function iter_function_name_and_extra :: "string \<Rightarrow> string \<Rightarrow> (string \<times> string) list" where
  "iter_function_name_and_extra text s =
     (case s of
        [] \<Rightarrow> [(''text'', text)]
      | c # cs \<Rightarrow>
          (case cq_match s of
             Some (type, ps, rest) \<Rightarrow>
               (''text'', text) # (type, lstrip_comma ps) # iter_function_name_and_extra [] rest
           | None \<Rightarrow> iter_function_name_and_extra (text @ [c]) cs))"
  by pat_completeness auto
termination
proof (relation "measure (\<lambda>(acc, s). length s)")
  show "wf (measure (\<lambda>(acc, s). length s))" by simp
next
  fix acc s :: string and c cs
  assume "s = c # cs"
  then show "((acc @ [c], cs), acc, s) \<in> measure (\<lambda>(acc, s). length s)" by simp
next
  fix acc s :: string and c cs x ty y ps rest
  assume m: "cq_match s = Some x" "(ty, y) = x" "(ps, rest) = y"
  have groups: "cq_groups u = Some (qs, r) \<Longrightarrow> length r < length u" for u qs r
  proof (induction u arbitrary: qs r rule: cq_groups.induct)
    case (1 u)
    show ?case
    proof (cases u)
      case Nil
      with "1.prems" show ?thesis by (simp add: cq_groups.simps)
    next
      case (Cons a as)
      note u = Cons
      show ?thesis
      proof (cases "a = CHR '']''")
        case True
        with "1.prems" u show ?thesis by (simp add: cq_groups.simps)
      next
        case False
        note nb = False
        show ?thesis
        proof (cases as)
          case Nil
          with "1.prems" u nb show ?thesis by (simp add: cq_groups.simps split: if_splits)
        next
          case (Cons b bs)
          note as = Cons
          show ?thesis
          proof (cases "b = CHR '']''")
            case True
            with "1.prems" u nb as show ?thesis
              by (simp add: cq_groups.simps split: if_splits)
          next
            case False
            from "1.prems" u nb as False
            have comma: "a = CHR '',''" and key: "is_key_char b"
              by (simp_all add: cq_groups.simps split: if_splits)
            from "1.prems" u nb as False comma key
            obtain qs' where rec: "cq_groups (dropWhile is_value_char as) = Some (qs', r)"
              by (subst (asm) cq_groups.simps) (auto split: option.splits)
            have "length r < length (dropWhile is_value_char as)"
              using "1.IH" [OF u nb comma as False key rec] .
            moreover have "length (dropWhile is_value_char as) \<le> length as"
              by (rule length_dropWhile_le)
            ultimately show ?thesis using u by simp
          qed
        qed
      qed
    qed
  qed
  from m have g: "cq_groups (dropWhile is_key_char (drop 4 s)) = Some (ps, rest)"
    by (auto simp: cq_match_def Let_def split: if_splits option.splits)
  have "length (dropWhile is_key_char (drop 4 s)) \<le> length (drop 4 s)"
    by (rule length_dropWhile_le)
  with groups [OF g]
  show "(([], rest), acc, s) \<in> measure (\<lambda>(acc, s). length s)" by simp
qed

declare iter_function_name_and_extra.simps [simp del]

text \<open>
  \<^verbatim>\<open>
  data = {k: v for k, v in map(
      lambda x: x.split('=', maxsplit=1),
      filter(lambda x: x, (x.lstrip() for x in extra.split(',')))
  )}
  \<close>
  Unpacking \<^verbatim>\<open>k, v\<close> from a list of one element raises \<^verbatim>\<open>ValueError\<close>. A key that
  comes again overwrites the value and keeps its place.
\<close>

fun dict_of_pieces :: "params \<Rightarrow> string list list \<Rightarrow> error + params" where
  "dict_of_pieces d [] = Inr d"
| "dict_of_pieces d ([k, v] # xs) = dict_of_pieces (dict_setitem d k v) xs"
| "dict_of_pieces d (x # xs) = Inl ValueError_unpack"

definition parse_data :: "string \<Rightarrow> error + params" where
  "parse_data extra =
     dict_of_pieces []
       (map (split1 CHR ''='') (filter (\<lambda>x. x \<noteq> []) (map lstrip (split CHR '','' extra))))"

text \<open>
  \<^verbatim>\<open>
  for function_name, extra in iter_function_name_and_extra():
      if function_name == 'text':
          if extra:
              # only yield non-empty text segment
              yield MessageSegment(type=function_name,
                                   data={'text': extra})
      else:
          data = {...}
          yield MessageSegment(type=function_name, data=data)
  \<close>
  \<^verbatim>\<open>_split_iter\<close> is a generator. The model gives what it yields, as the arguments
  \<^verbatim>\<open>type\<close> and \<^verbatim>\<open>data\<close> of each \<^verbatim>\<open>MessageSegment(...)\<close> call, and the exception that
  ends the iteration, if one does; the segments themselves are made when the
  consumer asks for them (\<open>Yield\<close> below).
\<close>

fun split_segments :: "(string \<times> string) list \<Rightarrow> (string \<times> params) list \<times> error option" where
  "split_segments [] = ([], None)"
| "split_segments ((function_name, extra) # xs) =
     (if function_name = ''text'' then
        (if extra \<noteq> [] then
           (let (ys, e) = split_segments xs in ((function_name, [(''text'', extra)]) # ys, e))
         else split_segments xs)
      else
        (case parse_data extra of
           Inl e \<Rightarrow> ([], Some e)
         | Inr data \<Rightarrow> (let (ys, e) = split_segments xs in ((function_name, data) # ys, e))))"

definition split_iter :: "string \<Rightarrow> (string \<times> params) list \<times> error option" where
  "split_iter msg_str = split_segments (iter_function_name_and_extra [] msg_str)"

section \<open>Message\<close>

text \<open>
  A \<^verbatim>\<open>Message\<close> is a Python list of segments. A method that mutates \<^verbatim>\<open>self\<close> takes the
  store and the elements of \<^verbatim>\<open>self\<close> and returns both as they are when the method
  returns or raises, with the exception raised, if any.
\<close>

type_synonym message = "segment list"
type_synonym state = "heap \<times> message"

text \<open>
  \<^verbatim>\<open>a.data['text'] += b.data['text']\<close>: Python reads \<^verbatim>\<open>a.data\<close> and its entry, then
  \<^verbatim>\<open>b.data\<close> and its entry, and stores the concatenation in the dict of \<^verbatim>\<open>a\<close>.
\<close>

definition iadd_text :: "heap \<Rightarrow> segment \<Rightarrow> segment \<Rightarrow> error + heap" where
  "iadd_text h a b =
     (case getattr_data a of
        Inl e \<Rightarrow> Inl e
      | Inr da \<Rightarrow>
          (case dict_getitem (h ! da) ''text'' of
             Inl e \<Rightarrow> Inl e
           | Inr x \<Rightarrow>
               (case getattr_data b of
                  Inl e \<Rightarrow> Inl e
                | Inr db \<Rightarrow>
                    (case dict_getitem (h ! db) ''text'' of
                       Inl e \<Rightarrow> Inl e
                     | Inr y \<Rightarrow> Inr (h[da := dict_setitem (h ! da) ''text'' (x @ y)])))))"

text \<open>
  \<^verbatim>\<open>
  def append(self, obj: Any) -> None:
      try:
          if isinstance(obj, MessageSegment):
              if len(self) > 0 and \
                      self[-1].type == 'text' and obj.type == 'text':
                  self[-1].data['text'] += obj.data['text']
              else:
                  super().append(obj)
          else:
              self.append(MessageSegment(obj))
          return
      except:
          pass
      raise ValueError('the object is not a valid message segment')
  \<close>
  \<open>append_segment\<close> is the method on a \<^verbatim>\<open>MessageSegment\<close>, \<open>append_obj\<close> the method on any
  argument, with its one recursive call.
\<close>

definition append_segment :: "heap \<Rightarrow> message \<Rightarrow> segment \<Rightarrow> state \<times> error option" where
  "append_segment h self obj =
     (if length self > 0 \<and> seg_type (last self) = ''text'' \<and> seg_type obj = ''text'' then
        (case iadd_text h (last self) obj of
           Inl e \<Rightarrow> ((h, self), Some ValueError_append)
         | Inr h' \<Rightarrow> ((h', self), None))
      else ((h, self @ [obj]), None))"

definition append_obj :: "heap \<Rightarrow> message \<Rightarrow> pyarg \<Rightarrow> state \<times> error option" where
  "append_obj h self obj =
     (case obj of
        ASegment s \<Rightarrow> append_segment h self s
      | _ \<Rightarrow>
          (case segment_init h obj None None of
             Inl e \<Rightarrow> ((h, self), Some ValueError_append)
           | Inr (h', s) \<Rightarrow>
               (case append_segment h' self s of
                  (st, None) \<Rightarrow> (st, None)
                | (st, Some e) \<Rightarrow> (st, Some ValueError_append))))"

text \<open>
  What \<^verbatim>\<open>for seg in msg\<close> gets from the iterable: an element of a list, a segment the
  generator \<^verbatim>\<open>_split_iter\<close> makes (\<^verbatim>\<open>MessageSegment(type=..., data={...})\<close>, with a new
  dict), or a segment \<^verbatim>\<open>map(lambda d: MessageSegment(d), other)\<close> makes.
\<close>

datatype item = Elem pyarg | Yield string params | Coerce pyarg

definition next_item :: "heap \<Rightarrow> item \<Rightarrow> error + heap \<times> pyarg" where
  "next_item h it =
     (case it of
        Elem x \<Rightarrow> Inr (h, x)
      | Yield type data \<Rightarrow>
          (let (h', a) = alloc h data
           in (case segment_init h' ANone (Some type) (Some a) of
                 Inl e \<Rightarrow> Inl e
               | Inr (h'', s) \<Rightarrow> Inr (h'', ASegment s)))
      | Coerce d \<Rightarrow>
          (case segment_init h d None None of
             Inl e \<Rightarrow> Inl e
           | Inr (h', s) \<Rightarrow> Inr (h', ASegment s)))"

text \<open>
  \<^verbatim>\<open>
  for seg in msg:
      self.append(seg)
  \<close>
  The last argument is the exception that ends the iterable, if one does.
\<close>

fun append_all :: "heap \<Rightarrow> message \<Rightarrow> item list \<Rightarrow> error option \<Rightarrow> state \<times> error option" where
  "append_all h self [] e = ((h, self), e)"
| "append_all h self (it # its) e =
     (case next_item h it of
        Inl e' \<Rightarrow> ((h, self), Some e')
      | Inr (h', seg) \<Rightarrow>
          (case append_obj h' self seg of
             ((h'', self'), None) \<Rightarrow> append_all h'' self' its e
           | (st, Some e') \<Rightarrow> (st, Some e')))"

text \<open>
  The elements of an iterable argument, or \<open>None\<close> where the argument is not
  iterable. Iterating a dict gives its keys.
\<close>

definition items_of :: "pyarg \<Rightarrow> (item list \<times> error option) option" where
  "items_of msg =
     (case msg of
        AStr s \<Rightarrow> (let (ys, e) = split_iter s in Some (map (\<lambda>(t, d). Yield t d) ys, e))
      | AList xs \<Rightarrow> Some (map Elem xs, None)
      | AMessage ss \<Rightarrow> Some (map (\<lambda>s. Elem (ASegment s)) ss, None)
      | ASegment s \<Rightarrow>
          Some (Elem (AStr ''type'') # (case seg_data s of None \<Rightarrow> [] | Some a \<Rightarrow> [Elem (AStr ''data'')]), None)
      | ADict r \<Rightarrow>
          Some ((case raw_type r of None \<Rightarrow> [] | Some t \<Rightarrow> [Elem (AStr ''type'')])
                @ (case raw_data r of None \<Rightarrow> [] | Some a \<Rightarrow> [Elem (AStr ''data'')]), None)
      | _ \<Rightarrow> None)"

text \<open>
  \<^verbatim>\<open>
  def extend(self, msg: Any) -> None:
      try:
          if isinstance(msg, str):
              msg = self._split_iter(msg)

          for seg in msg:
              self.append(seg)
          return
      except:
          pass
      raise ValueError('the object is not a valid message')
  \<close>
  The iterable is taken to be another object than the list \<^verbatim>\<open>self\<close> (Python would
  iterate over the list while it grows).
\<close>

definition extend_items :: "heap \<Rightarrow> message \<Rightarrow> item list \<Rightarrow> error option \<Rightarrow> state \<times> error option" where
  "extend_items h self its e =
     (case append_all h self its e of
        (st, None) \<Rightarrow> (st, None)
      | (st, Some e') \<Rightarrow> (st, Some ValueError_extend))"

definition extend :: "heap \<Rightarrow> message \<Rightarrow> pyarg \<Rightarrow> state \<times> error option" where
  "extend h self msg =
     (case items_of msg of
        None \<Rightarrow> ((h, self), Some ValueError_extend)
      | Some (its, e) \<Rightarrow> extend_items h self its e)"

text \<open>
  \<^verbatim>\<open>
  def __init__(self, msg: Any = None, *args, **kwargs):
      super().__init__(*args, **kwargs)
      try:
          if isinstance(msg, (list, str)):
              self.extend(msg)
          elif isinstance(msg, dict):
              self.append(msg)
          return
      except:
          pass
      raise ValueError('the msg argument is not recognizable')
  \<close>
  The constructor returns the store and the new list, or the exception.
\<close>

definition message_init :: "heap \<Rightarrow> pyarg \<Rightarrow> heap \<times> (error + message)" where
  "message_init h msg =
     (let r = (case msg of
                 AStr s \<Rightarrow> extend h [] msg
               | AList xs \<Rightarrow> extend h [] msg
               | AMessage ss \<Rightarrow> extend h [] msg
               | ADict d \<Rightarrow> append_obj h [] msg
               | ASegment s \<Rightarrow> append_obj h [] msg
               | _ \<Rightarrow> ((h, []), None))
      in (case r of
            ((h', self), None) \<Rightarrow> (h', Inr self)
          | ((h', self), Some e) \<Rightarrow> (h', Inl ValueError_init)))"

text \<open>
  \<^verbatim>\<open>
  def __str__(self):
      return ''.join((str(seg) for seg in self))
  \<close>
\<close>

fun message_str :: "heap \<Rightarrow> message \<Rightarrow> error + string" where
  "message_str h [] = Inr []"
| "message_str h (seg # self) =
     (case segment_str h seg of
        Inl e \<Rightarrow> Inl e
      | Inr x \<Rightarrow> (case message_str h self of Inl e \<Rightarrow> Inl e | Inr y \<Rightarrow> Inr (x @ y)))"

text \<open>
  \<^verbatim>\<open>
  def __add__(self, other: Any):
      result = Message(self)
      try:
          if isinstance(other, Message):
              result.extend(other)
          elif isinstance(other, MessageSegment):
              result.append(other)
          elif isinstance(other, list):
              result.extend(map(lambda d: MessageSegment(d), other))
          elif isinstance(other, dict):
              result.append(MessageSegment(other))
          elif isinstance(other, str):
              result.extend(Message._split_iter(other))
          return result
      except:
          pass
      raise ValueError('the addend is not a valid message')
  \<close>
  \<^verbatim>\<open>Message(self)\<close> makes a new list and appends the segments of \<^verbatim>\<open>self\<close> to it, the
  same objects: their \<^verbatim>\<open>data\<close> dicts are at the same addresses.
\<close>

definition add :: "heap \<Rightarrow> message \<Rightarrow> pyarg \<Rightarrow> heap \<times> (error + message)" where
  "add h self other =
     (case message_init h (AMessage self) of
        (h0, Inl e) \<Rightarrow> (h0, Inl e)
      | (h0, Inr result) \<Rightarrow>
          (let r = (case other of
                      AMessage ss \<Rightarrow> extend h0 result other
                    | ASegment s \<Rightarrow> append_obj h0 result other
                    | AList xs \<Rightarrow> extend_items h0 result (map Coerce xs) None
                    | ADict d \<Rightarrow>
                        (case segment_init h0 other None None of
                           Inl e \<Rightarrow> ((h0, result), Some e)
                         | Inr (h1, s) \<Rightarrow> append_obj h1 result (ASegment s))
                    | AStr s \<Rightarrow>
                        (let (ys, e) = split_iter s
                         in extend_items h0 result (map (\<lambda>(t, d). Yield t d) ys) e)
                    | _ \<Rightarrow> ((h0, result), None))
           in (case r of
                 ((h', result'), None) \<Rightarrow> (h', Inr result')
               | ((h', result'), Some e) \<Rightarrow> (h', Inl ValueError_add))))"

text \<open>
  \<^verbatim>\<open>
  def reduce(self) -> None:
      idx = 0
      while idx < len(self):
          if idx > 0 and \
                  self[idx - 1].type == 'text' and self[idx].type == 'text':
              self[idx - 1].data['text'] += self[idx].data['text']
              del self[idx]
          else:
              idx += 1
  \<close>
  \<^verbatim>\<open>reduce\<close> catches nothing: an exception of the assignment leaves the loop.
\<close>

definition delete_at :: "nat \<Rightarrow> 'a list \<Rightarrow> 'a list" where
  "delete_at idx xs = take idx xs @ drop (Suc idx) xs"

function reduce_loop :: "heap \<Rightarrow> message \<Rightarrow> nat \<Rightarrow> state \<times> error option" where
  "reduce_loop h self idx =
     (if idx < length self then
        (if idx > 0 \<and> seg_type (self ! (idx - 1)) = ''text'' \<and> seg_type (self ! idx) = ''text'' then
           (case iadd_text h (self ! (idx - 1)) (self ! idx) of
              Inl e \<Rightarrow> ((h, self), Some e)
            | Inr h' \<Rightarrow> reduce_loop h' (delete_at idx self) idx)
         else reduce_loop h self (idx + 1))
      else ((h, self), None))"
  by pat_completeness auto
termination
  by (relation "measure (\<lambda>(h, self, idx). 2 * length self - idx)")
     (auto simp: delete_at_def)

declare reduce_loop.simps [simp del]

definition reduce :: "heap \<Rightarrow> message \<Rightarrow> state \<times> error option" where
  "reduce h self = reduce_loop h self 0"

text \<open>
  \<^verbatim>\<open>
  def extract_plain_text(self, reduce: bool = False) -> str:
      if reduce:
          self.reduce()

      result = ''
      for seg in self:
          if seg.type == 'text':
              result += ' ' + seg.data['text']
      if result:
          result = result[1:]
      return result
  \<close>
\<close>

fun extract_loop :: "heap \<Rightarrow> message \<Rightarrow> string \<Rightarrow> error + string" where
  "extract_loop h [] result = Inr result"
| "extract_loop h (seg # self) result =
     (if seg_type seg = ''text'' then
        (case getattr_data seg of
           Inl e \<Rightarrow> Inl e
         | Inr a \<Rightarrow>
             (case dict_getitem (h ! a) ''text'' of
                Inl e \<Rightarrow> Inl e
              | Inr t \<Rightarrow> extract_loop h self (result @ '' '' @ t)))
      else extract_loop h self result)"

definition extract_plain_text :: "heap \<Rightarrow> message \<Rightarrow> bool \<Rightarrow> state \<times> (error + string)" where
  "extract_plain_text h self do_reduce =
     (case (if do_reduce then reduce h self else ((h, self), None)) of
        (st, Some e) \<Rightarrow> (st, Inl e)
      | ((h', self'), None) \<Rightarrow>
          ((h', self'),
           (case extract_loop h' self' [] of
              Inl e \<Rightarrow> Inl e
            | Inr result \<Rightarrow> Inr (if result \<noteq> [] then drop 1 result else result))))"

section \<open>Notions used in the statements\<close>

text \<open>
  Replacing a single character works character by character, so \<^const>\<open>escape\<close>
  maps every character to its image and concatenates the images.
\<close>

definition esc_char :: "bool \<Rightarrow> char \<Rightarrow> string" where
  "esc_char comma c =
     (if c = CHR ''&'' then ''&amp;''
      else if c = CHR ''['' then ''&#91;''
      else if c = CHR '']'' then ''&#93;''
      else if c = CHR '','' \<and> comma then ''&#44;''
      else [c])"

text \<open>
  \<^const>\<open>unescape\<close> undoes the images one kind after the other. In an escaped string
  an ampersand only stands at the start of an image, so each pass finds exactly the
  images of its kind.
\<close>

definition esc_amp_close :: "char \<Rightarrow> string" where
  "esc_amp_close c =
     (if c = CHR ''&'' then ''&amp;'' else if c = CHR '']'' then ''&#93;'' else [c])"

definition esc_amp :: "char \<Rightarrow> string" where
  "esc_amp c = (if c = CHR ''&'' then ''&amp;'' else [c])"

text \<open>\<^verbatim>\<open>isinstance(obj, MessageSegment)\<close>\<close>

fun is_segment :: "pyarg \<Rightarrow> bool" where
  "is_segment (ASegment s) = True"
| "is_segment _ = False"

text \<open>Two neighbours of the message are both of type \<^verbatim>\<open>'text'\<close>.\<close>

fun adjacent_text :: "message \<Rightarrow> bool" where
  "adjacent_text (a # b # m) =
     ((seg_type a = ''text'' \<and> seg_type b = ''text'') \<or> adjacent_text (b # m))"
| "adjacent_text m = False"

text \<open>
  A client that builds a message with \<^verbatim>\<open>append\<close> and \<^verbatim>\<open>extend\<close> only: between the
  calls it may create dicts and write to dicts as it likes, and it may go on after a
  call has raised.
\<close>

datatype call = Append pyarg | Extend pyarg | Alloc params | Store addr params

fun run_call :: "state \<Rightarrow> call \<Rightarrow> state" where
  "run_call (h, m) (Append x) = fst (append_obj h m x)"
| "run_call (h, m) (Extend x) = fst (extend h m x)"
| "run_call (h, m) (Alloc d) = (h @ [d], m)"
| "run_call (h, m) (Store a d) = (h[a := d], m)"

definition build :: "heap \<Rightarrow> call list \<Rightarrow> state" where
  "build h calls = foldl run_call (h, []) calls"

text \<open>
  The loop invariant of \<^verbatim>\<open>reduce\<close>: no element before \<open>idx\<close> is of type \<^verbatim>\<open>'text'\<close>
  together with its left neighbour.
\<close>

definition merged_before :: "message \<Rightarrow> nat \<Rightarrow> bool" where
  "merged_before self idx =
     (\<forall>j. 0 < j \<and> j < idx \<longrightarrow> \<not> (seg_type (self ! (j - 1)) = ''text'' \<and> seg_type (self ! j) = ''text''))"

text \<open>
  The payloads of the segments of type \<^verbatim>\<open>'text'\<close> in order, or the exception of the
  first of them that has no \<^verbatim>\<open>data\<close> or no \<^verbatim>\<open>'text'\<close> entry.
\<close>

fun text_payloads :: "heap \<Rightarrow> message \<Rightarrow> error + string list" where
  "text_payloads h [] = Inr []"
| "text_payloads h (seg # self) =
     (if seg_type seg = ''text'' then
        (case getattr_data seg of
           Inl e \<Rightarrow> Inl e
         | Inr a \<Rightarrow>
             (case dict_getitem (h ! a) ''text'' of
                Inl e \<Rightarrow> Inl e
              | Inr t \<Rightarrow> (case text_payloads h self of Inl e \<Rightarrow> Inl e | Inr ts \<Rightarrow> Inr (t # ts))))
      else text_payloads h self)"

definition joined_payloads :: "heap \<Rightarrow> message \<Rightarrow> error + string" where
  "joined_payloads h self =
     (case text_payloads h self of Inl e \<Rightarrow> Inl e | Inr ts \<Rightarrow> Inr (join '' '' ts))"

text \<open>
  The reading of the specification: a single space between the non-empty payloads.
\<close>

definition joined_nonempty_payloads :: "heap \<Rightarrow> message \<Rightarrow> error + string" where
  "joined_nonempty_payloads h self =
     (case text_payloads h self of
        Inl e \<Rightarrow> Inl e
      | Inr ts \<Rightarrow> Inr (join '' '' (filter (\<lambda>t. t \<noteq> []) ts)))"

text \<open>
  What one group of the expression matches behind its comma, the text of a sequence
  of groups, and the matches of the whole expression at the start of a string.
\<close>

definition piece :: "string \<Rightarrow> bool" where
  "piece p = (p \<noteq> [] \<and> is_key_char (hd p) \<and> list_all is_value_char p)"

definition groups_str :: "string list \<Rightarrow> string" where
  "groups_str ps = concat (map (\<lambda>p. CHR '','' # p) ps)"

definition cq_shape :: "string \<Rightarrow> (string \<times> string \<times> string) set" where
  "cq_shape s =
     {(type, params, rest). \<exists>ps t.
        s = ''[CQ:'' @ type @ params @ t @ rest \<and> type \<noteq> [] \<and> list_all is_key_char type
        \<and> params = groups_str ps \<and> list_all piece ps \<and> (t = '']'' \<or> t = '',]'')}"

text \<open>One or more characters of \<^verbatim>\<open>[a-zA-Z0-9-_.]\<close>.\<close>

definition key_string :: "string \<Rightarrow> bool" where
  "key_string k = (k \<noteq> [] \<and> list_all is_key_char k)"

text \<open>
  A parameter as the expression reads it back: the key is a string of key characters,
  the value has neither a comma nor a closing bracket.
\<close>

definition param_ok :: "string \<times> string \<Rightarrow> bool" where
  "param_ok p = (key_string (fst p) \<and> list_all is_value_char (snd p))"

text \<open>The text of a token with the given type and parameters.\<close>

definition param_str :: "string \<times> string \<Rightarrow> string" where
  "param_str p = fst p @ ''='' @ snd p"

definition params_str :: "params \<Rightarrow> string" where
  "params_str d = concat (map (\<lambda>p. CHR '','' # param_str p) d)"

definition token :: "string \<Rightarrow> params \<Rightarrow> string" where
  "token type d = ''[CQ:'' @ type @ params_str d @ '']''"

text \<open>The dict a sequence of assignments \<^verbatim>\<open>d[k] = v\<close> builds from the empty dict.\<close>

definition dict_of :: "params \<Rightarrow> params" where
  "dict_of kvs = foldl (\<lambda>d p. dict_setitem d (fst p) (snd p)) [] kvs"

text \<open>The text segment for the text passed since the last match, if there is any.\<close>

definition pending :: "string \<Rightarrow> (string \<times> params) list" where
  "pending acc = (if acc = [] then [] else [(''text'', [(''text'', acc)])])"

text \<open>
  The content of a segment: its type and its params. \<open>merge_adjacent\<close> is the merge of
  neighbouring text segments on contents: the left one gets the concatenated payload.
\<close>

type_synonym content = "string \<times> params"

definition combine :: "content \<Rightarrow> content \<Rightarrow> content" where
  "combine a b =
     (''text'', dict_setitem (snd a) ''text'' (dict_get (snd a) ''text'' [] @ dict_get (snd b) ''text'' []))"

fun merge_adjacent :: "content list \<Rightarrow> content list" where
  "merge_adjacent (a # b # vs) =
     (if fst a = ''text'' \<and> fst b = ''text'' then merge_adjacent (combine a b # vs)
      else a # merge_adjacent (b # vs))"
| "merge_adjacent vs = vs"

text \<open>
  Strings that \<^const>\<open>escape\<close> leaves as they are: without \<^verbatim>\<open>&\<close>, \<^verbatim>\<open>[\<close>, \<^verbatim>\<open>]\<close>, and for a
  parameter value without the comma too.
\<close>

definition plain_text :: "string \<Rightarrow> bool" where
  "plain_text t = list_all (\<lambda>c. c \<noteq> CHR ''&'' \<and> c \<noteq> CHR ''['' \<and> c \<noteq> CHR '']'') t"

definition plain_value :: "string \<Rightarrow> bool" where
  "plain_value v =
     list_all (\<lambda>c. c \<noteq> CHR ''&'' \<and> c \<noteq> CHR ''['' \<and> c \<noteq> CHR '']'' \<and> c \<noteq> CHR '','') v"

text \<open>
  The contents that come back from the wire format: a text segment holds exactly a
  non-empty plain payload; another segment has a type and keys made of key
  characters, and plain values.
\<close>

definition content_ok :: "content \<Rightarrow> bool" where
  "content_ok v =
     (if fst v = ''text'' then
        (let t = dict_get (snd v) ''text'' []
         in snd v = [(''text'', t)] \<and> t \<noteq> [] \<and> plain_text t)
      else key_string (fst v) \<and> distinct (map fst (snd v))
           \<and> list_all (\<lambda>p. key_string (fst p) \<and> plain_value (snd p)) (snd v))"

text \<open>What such a segment renders to.\<close>

definition render :: "content \<Rightarrow> string" where
  "render v = (if fst v = ''text'' then dict_get (snd v) ''text'' [] else token (fst v) (snd v))"

text \<open>
  The contents of the segments of a message in a store. \<open>owned\<close>: every segment has a
  \<^verbatim>\<open>data\<close> dict in the store, a text segment has a payload, and no two segments share
  a dict.
\<close>

definition view :: "heap \<Rightarrow> message \<Rightarrow> content list" where
  "view h self = map (\<lambda>s. (seg_type s, h ! the (seg_data s))) self"

definition has_payload :: "heap \<Rightarrow> segment \<Rightarrow> bool" where
  "has_payload h s =
     (case seg_data s of
        None \<Rightarrow> False
      | Some a \<Rightarrow> a < length h \<and> (seg_type s = ''text'' \<longrightarrow> map_of (h ! a) ''text'' \<noteq> None))"

definition owned :: "heap \<Rightarrow> message \<Rightarrow> bool" where
  "owned h self = (list_all (has_payload h) self \<and> distinct (map seg_data self))"

text \<open>Two neighbouring contents are both of type \<^verbatim>\<open>'text'\<close>.\<close>

fun adjacent_text_contents :: "content list \<Rightarrow> bool" where
  "adjacent_text_contents (a # b # vs) =
     ((fst a = ''text'' \<and> fst b = ''text'') \<or> adjacent_text_contents (b # vs))"
| "adjacent_text_contents vs = False"

text \<open>
  What equality of two messages compares: for each segment its type and its params,
  or that it has none.
\<close>

definition contents :: "heap \<Rightarrow> message \<Rightarrow> (string \<times> params option) list" where
  "contents h self = map (\<lambda>s. (seg_type s, map_option (\<lambda>a. h ! a) (seg_data s))) self"

text \<open>
  Messages on which escaping changes nothing: every segment has its own dict in the
  store, with contents that the wire format carries as they are.
\<close>

definition roundtrip_safe :: "heap \<Rightarrow> message \<Rightarrow> bool" where
  "roundtrip_safe h self =
     (list_all (\<lambda>s. case seg_data s of
                      None \<Rightarrow> False
                    | Some a \<Rightarrow> a < length h \<and> content_ok (seg_type s, h ! a)) self
      \<and> distinct (map seg_data self))"

section \<open>The escape codec\<close>

lemma replace_Nil [simp]: "old \<noteq> [] \<Longrightarrow> replace old new [] = []"
  by (simp add: replace.simps)

lemma replace_Cons:
  "old \<noteq> [] \<Longrightarrow> replace old new (c # s) =
     (if prefix old (c # s) then new @ replace old new (drop (length old) (c # s))
      else c # replace old new s)"
  by (subst replace.simps) simp

lemma replace_single:
  "replace [c] new s = concat (map (\<lambda>x. if x = c then new else [x]) s)"
  by (induction s) (auto simp: replace_Cons)

lemma escape_concat: "escape s b = concat (map (esc_char b) s)"
  unfolding escape_def Let_def replace_single
  by (induction s) (auto simp: esc_char_def)

lemma unescape_comma:
  "replace ''&#44;'' '','' (concat (map (esc_char True) s)) = concat (map (esc_char False) s)"
  by (induction s) (simp_all add: replace_Cons esc_char_def)

lemma unescape_open:
  "replace ''&#91;'' ''['' (concat (map (esc_char False) s)) = concat (map esc_amp_close s)"
  by (induction s) (simp_all add: replace_Cons esc_char_def esc_amp_close_def)

lemma unescape_close:
  "replace ''&#93;'' '']'' (concat (map esc_amp_close s)) = concat (map esc_amp s)"
  by (induction s) (simp_all add: replace_Cons esc_amp_close_def esc_amp_def)

lemma unescape_amp: "replace ''&amp;'' ''&'' (concat (map esc_amp s)) = s"
  by (induction s) (simp_all add: replace_Cons esc_amp_def)

lemma unescape_escape: "unescape (escape s True) = s"
  by (simp add: unescape_def escape_concat unescape_comma unescape_open unescape_close
        unescape_amp)

text \<open>
  C5. For every string \<open>s\<close> that contains none of the escape sequences
  \<^verbatim>\<open>&amp;\<close>, \<^verbatim>\<open>&#91;\<close>, \<^verbatim>\<open>&#93;\<close>, \<^verbatim>\<open>&#44;\<close>, unescaping the string escaped with
  comma escaping gives \<open>s\<close> back.
\<close>

theorem unescape_escape_inverse:
  "\<not> has_escape_sequence s \<Longrightarrow> unescape (escape s True) = s"
  by (rule unescape_escape)

theorem unescape_escape_inverse_witness:
  "\<not> has_escape_sequence ''a,b&[x]'' \<and> unescape (escape ''a,b&[x]'' True) = ''a,b&[x]''"
  using unescape_escape_inverse [of "''a,b&[x]''"] by (simp add: has_escape_sequence_def)

section \<open>Segments\<close>

text \<open>
  C10. Constructing a segment from a mapping whose \<^verbatim>\<open>'type'\<close> is non-empty and that has
  no \<^verbatim>\<open>'data'\<close> key succeeds, whatever the keyword arguments are; the segment has no
  \<^verbatim>\<open>data\<close> entry, so reading it (as an item or as an attribute) and rendering the
  segment raise. Only the keyword path puts a new empty dict there.
\<close>

theorem segment_without_data:
  "raw_type r = Some t \<Longrightarrow> t \<noteq> [] \<Longrightarrow> raw_data r = None \<Longrightarrow>
     segment_init h (ADict r) type data = Inr (h, \<lparr>seg_type = t, seg_data = None\<rparr>)
     \<and> getitem_data \<lparr>seg_type = t, seg_data = None\<rparr> = Inl (KeyError ''data'')
     \<and> getattr_data \<lparr>seg_type = t, seg_data = None\<rparr> = Inl (AttributeError ''data'')
     \<and> segment_str h \<lparr>seg_type = t, seg_data = None\<rparr> = Inl (AttributeError ''data'')
     \<and> segment_init h ANone (Some t) None = Inr (h @ [[]], \<lparr>seg_type = t, seg_data = Some (length h)\<rparr>)"
  by (simp add: segment_init_def segment_init_kw_def getitem_data_def getattr_data_def
        segment_str_def alloc_def)

theorem segment_without_data_witness:
  "raw_type \<lparr>raw_type = Some ''image'', raw_data = None\<rparr> = Some ''image'' \<and> ''image'' \<noteq> []
   \<and> raw_data \<lparr>raw_type = Some ''image'', raw_data = None\<rparr> = None
   \<and> segment_init [] (ADict \<lparr>raw_type = Some ''image'', raw_data = None\<rparr>) None None
       = Inr ([], \<lparr>seg_type = ''image'', seg_data = None\<rparr>)
   \<and> segment_str [] \<lparr>seg_type = ''image'', seg_data = None\<rparr> = Inl (AttributeError ''data'')
   \<and> segment_init [] ANone (Some ''image'') None = Inr ([[]], \<lparr>seg_type = ''image'', seg_data = Some 0\<rparr>)"
  using segment_without_data [of "\<lparr>raw_type = Some ''image'', raw_data = None\<rparr>" "''image''" "[]" None None]
  by simp

section \<open>Appending\<close>

text \<open>The arguments \<^verbatim>\<open>MessageSegment(obj)\<close> rejects.\<close>

lemma coercion_fails_iff:
  "(\<exists>e. segment_init h obj None None = Inl e) \<longleftrightarrow>
     (case obj of ADict r \<Rightarrow> raw_type r = None \<or> raw_type r = Some []
               | ASegment s \<Rightarrow> seg_type s = []
               | _ \<Rightarrow> True)"
  by (cases obj) (auto simp: segment_init_def segment_init_kw_def split: option.splits)

text \<open>\<^verbatim>\<open>append\<close> raises before it has written anything.\<close>

lemma segment_init_same_store:
  "segment_init h obj None None = Inr (h', s) \<Longrightarrow> h' = h"
  by (cases obj) (auto simp: segment_init_def segment_init_kw_def split: option.splits if_splits)

lemma append_segment_raises:
  "append_segment h self s = (st, Some e) \<Longrightarrow> st = (h, self) \<and> e = ValueError_append"
  by (auto simp: append_segment_def split: if_splits sum.splits)

lemma append_obj_coerced:
  "\<not> is_segment obj \<Longrightarrow> segment_init h obj None None = Inr (h', s) \<Longrightarrow>
     append_obj h self obj =
       (case append_segment h' self s of
          (st, None) \<Rightarrow> (st, None)
        | (st, Some e) \<Rightarrow> (st, Some ValueError_append))"
  by (cases obj) (simp_all add: append_obj_def)

lemma append_obj_raises:
  assumes "append_obj h self obj = (st, Some e)"
  shows "st = (h, self) \<and> e = ValueError_append"
proof (cases "is_segment obj")
  case True
  then obtain s where "obj = ASegment s" by (cases obj) simp_all
  with assms have "append_segment h self s = (st, Some e)" by (simp add: append_obj_def)
  then show ?thesis by (rule append_segment_raises)
next
  case False
  show ?thesis
  proof (cases "segment_init h obj None None")
    case (Inl e')
    with False assms show ?thesis by (cases obj) (simp_all add: append_obj_def)
  next
    case (Inr p)
    obtain h' s where p: "p = (h', s)" by (cases p)
    with Inr have h': "h' = h" using segment_init_same_store by blast
    obtain st' r where r: "append_segment h self s = (st', r)" by (cases "append_segment h self s")
    show ?thesis
    proof (cases r)
      case None
      with assms r show ?thesis
        using append_obj_coerced [OF False, of h h' s self] Inr p h' by simp
    next
      case (Some e')
      with r have "st' = (h, self)" using append_segment_raises [of h self s st' e'] by simp
      with assms r Some show ?thesis
        using append_obj_coerced [OF False, of h h' s self] Inr p h' by simp
    qed
  qed
qed

text \<open>
  C7. When the argument of \<^verbatim>\<open>append\<close> is not a segment and \<^verbatim>\<open>MessageSegment(obj)\<close>
  raises, \<^verbatim>\<open>append\<close> raises its \<^verbatim>\<open>ValueError\<close>, and the store and the elements of the
  message are what they were. The same holds whenever \<^verbatim>\<open>append\<close> raises.
\<close>

theorem append_failure_atomic:
  "(\<not> is_segment obj \<and> segment_init h obj None None = Inl e \<longrightarrow>
      append_obj h self obj = ((h, self), Some ValueError_append))
   \<and> (snd (append_obj h self obj) \<noteq> None \<longrightarrow>
      append_obj h self obj = ((h, self), Some ValueError_append))"
proof -
  have "append_obj h self obj = ((h, self), Some ValueError_append)"
    if "\<not> is_segment obj" "segment_init h obj None None = Inl e"
    using that by (cases obj) (simp_all add: append_obj_def)
  moreover have "append_obj h self obj = ((h, self), Some ValueError_append)"
    if "snd (append_obj h self obj) \<noteq> None"
  proof -
    from that obtain st e' where "append_obj h self obj = (st, Some e')"
      by (cases "append_obj h self obj") auto
    with append_obj_raises [OF this] show ?thesis by simp
  qed
  ultimately show ?thesis by blast
qed

theorem append_failure_atomic_witness:
  "\<not> is_segment (AStr ''abc'')
   \<and> segment_init [[(''text'', ''a'')]] (AStr ''abc'') None None = Inl ValueError_segment
   \<and> append_obj [[(''text'', ''a'')]] [\<lparr>seg_type = ''text'', seg_data = Some 0\<rparr>] (AStr ''abc'')
      = (([[(''text'', ''a'')]], [\<lparr>seg_type = ''text'', seg_data = Some 0\<rparr>]), Some ValueError_append)
   \<and> snd (append_obj [[(''text'', ''a'')]] [\<lparr>seg_type = ''text'', seg_data = Some 0\<rparr>] (AStr ''abc'')) \<noteq> None"
proof -
  have hyp: "\<not> is_segment (AStr ''abc'')
      \<and> segment_init [[(''text'', ''a'')]] (AStr ''abc'') None None = Inl ValueError_segment"
    by (simp add: segment_init_def segment_init_kw_def)
  with append_failure_atomic [of "AStr ''abc''" "[[(''text'', ''a'')]]" ValueError_segment
         "[\<lparr>seg_type = ''text'', seg_data = Some 0\<rparr>]"]
  have "append_obj [[(''text'', ''a'')]] [\<lparr>seg_type = ''text'', seg_data = Some 0\<rparr>] (AStr ''abc'')
      = (([[(''text'', ''a'')]], [\<lparr>seg_type = ''text'', seg_data = Some 0\<rparr>]), Some ValueError_append)"
    by blast
  with hyp show ?thesis by simp
qed

lemma adjacent_text_snoc:
  "\<not> adjacent_text m \<Longrightarrow> \<not> (m \<noteq> [] \<and> seg_type (last m) = ''text'' \<and> seg_type s = ''text'')
     \<Longrightarrow> \<not> adjacent_text (m @ [s])"
  by (induction m rule: adjacent_text.induct) auto

lemma append_segment_merge:
  assumes "self \<noteq> []" "seg_type (last self) = ''text''" "seg_type obj = ''text''"
    and "seg_data (last self) = Some a" "seg_data obj = Some b"
    and "map_of (h ! a) ''text'' = Some x" "map_of (h ! b) ''text'' = Some y"
  shows "append_segment h self obj = ((h[a := dict_setitem (h ! a) ''text'' (x @ y)], self), None)"
  using assms
  by (simp add: append_segment_def iadd_text_def getattr_data_def getitem_data_def dict_getitem_def)

lemma append_segment_new:
  "\<not> (self \<noteq> [] \<and> seg_type (last self) = ''text'' \<and> seg_type obj = ''text'')
     \<Longrightarrow> append_segment h self obj = ((h, self @ [obj]), None)"
  by (auto simp: append_segment_def)

lemma append_segment_cases:
  "snd (fst (append_segment h m s)) = m \<or>
   (snd (fst (append_segment h m s)) = m @ [s]
      \<and> \<not> (m \<noteq> [] \<and> seg_type (last m) = ''text'' \<and> seg_type s = ''text''))"
  by (auto simp: append_segment_def split: sum.splits)

lemma append_segment_inv:
  "\<not> adjacent_text m \<Longrightarrow> \<not> adjacent_text (snd (fst (append_segment h m s)))"
  using append_segment_cases [of h m s] adjacent_text_snoc [of m s] by auto

lemma append_not_segment:
  "\<not> is_segment x \<Longrightarrow>
     snd (fst (append_obj h m x)) =
       (case segment_init h x None None of
          Inl e \<Rightarrow> m
        | Inr (h', s) \<Rightarrow> snd (fst (append_segment h' m s)))"
  by (cases x) (auto simp: append_obj_def split: sum.splits prod.splits option.splits)

lemma append_inv: "\<not> adjacent_text m \<Longrightarrow> \<not> adjacent_text (snd (fst (append_obj h m x)))"
proof (cases "is_segment x")
  case True
  assume "\<not> adjacent_text m"
  with True show ?thesis by (cases x) (simp_all add: append_obj_def append_segment_inv)
next
  case False
  assume "\<not> adjacent_text m"
  with append_not_segment [OF False, of h m] show ?thesis
    by (auto split: sum.splits simp: append_segment_inv)
qed

lemma append_all_inv:
  "\<not> adjacent_text m \<Longrightarrow> \<not> adjacent_text (snd (fst (append_all h m its e)))"
proof (induction its arbitrary: h m)
  case Nil
  then show ?case by simp
next
  case (Cons it its)
  show ?case
  proof (cases "next_item h it")
    case (Inl e')
    with Cons.prems show ?thesis by simp
  next
    case (Inr p)
    obtain h' seg where p: "p = (h', seg)" by (cases p)
    obtain h'' m' r where a: "append_obj h' m seg = ((h'', m'), r)"
      by (cases "append_obj h' m seg") auto
    from append_inv [OF Cons.prems, of h' seg] a have inv: "\<not> adjacent_text m'" by simp
    show ?thesis
    proof (cases r)
      case None
      with Inr p a Cons.IH [OF inv] show ?thesis by simp
    next
      case (Some e')
      with Inr p a inv show ?thesis by simp
    qed
  qed
qed

lemma extend_inv: "\<not> adjacent_text m \<Longrightarrow> \<not> adjacent_text (snd (fst (extend h m x)))"
proof -
  assume inv: "\<not> adjacent_text m"
  have "snd (fst (extend_items h m its e)) = snd (fst (append_all h m its e))" for its e
    by (simp add: extend_items_def split: prod.splits option.splits)
  with append_all_inv [OF inv] inv show ?thesis
    by (auto simp: extend_def split: option.splits)
qed

lemma run_call_inv: "\<not> adjacent_text (snd st) \<Longrightarrow> \<not> adjacent_text (snd (run_call st c))"
  by (cases st; cases c) (simp_all add: append_inv extend_inv)

lemma foldl_run_call_inv:
  "\<not> adjacent_text (snd st) \<Longrightarrow> \<not> adjacent_text (snd (foldl run_call st calls))"
  by (induction calls arbitrary: st) (simp_all add: run_call_inv)

lemma build_inv: "\<not> adjacent_text (snd (build h calls))"
  unfolding build_def by (rule foldl_run_call_inv) simp

text \<open>
  C6. When the last element of the message and the appended segment are both of type
  \<^verbatim>\<open>'text'\<close> (and both have a text payload), \<^verbatim>\<open>append\<close> stores the concatenation of
  the payloads in the dict of the last element and adds no element; when they are
  not both of type \<^verbatim>\<open>'text'\<close>, it adds the segment as a new element. A mapping with a
  non-empty type is appended as the segment made from it. Appending the
  segments \<^verbatim>\<open>text("a")\<close> and \<^verbatim>\<open>text("b")\<close> to the empty message gives one element with
  payload \<^verbatim>\<open>"ab"\<close>. A message built from the empty one by \<^verbatim>\<open>append\<close> and \<^verbatim>\<open>extend\<close>
  calls never has two neighbours of type \<^verbatim>\<open>'text'\<close>.
\<close>

theorem append_merges_adjacent_text:
  "(self \<noteq> [] \<and> seg_type (last self) = ''text'' \<and> seg_type obj = ''text''
      \<and> seg_data (last self) = Some a \<and> seg_data obj = Some b
      \<and> map_of (h ! a) ''text'' = Some x \<and> map_of (h ! b) ''text'' = Some y \<and> a < length h
    \<longrightarrow> append_obj h self (ASegment obj) = ((h[a := dict_setitem (h ! a) ''text'' (x @ y)], self), None)
        \<and> map_of (h[a := dict_setitem (h ! a) ''text'' (x @ y)] ! a) ''text'' = Some (x @ y))
   \<and> (\<not> (self \<noteq> [] \<and> seg_type (last self) = ''text'' \<and> seg_type obj = ''text'')
    \<longrightarrow> append_obj h self (ASegment obj) = ((h, self @ [obj]), None))
   \<and> (raw_type r = Some t \<and> t \<noteq> []
    \<longrightarrow> append_obj h self (ADict r) = append_obj h self (ASegment \<lparr>seg_type = t, seg_data = raw_data r\<rparr>))
   \<and> segment_text [] ''a'' = Inr ([[(''text'', ''a'')]], \<lparr>seg_type = ''text'', seg_data = Some 0\<rparr>)
   \<and> segment_text [[(''text'', ''a'')]] ''b''
        = Inr ([[(''text'', ''a'')], [(''text'', ''b'')]], \<lparr>seg_type = ''text'', seg_data = Some 1\<rparr>)
   \<and> build [[(''text'', ''a'')], [(''text'', ''b'')]]
        [Append (ASegment \<lparr>seg_type = ''text'', seg_data = Some 0\<rparr>),
         Append (ASegment \<lparr>seg_type = ''text'', seg_data = Some 1\<rparr>)]
        = ([[(''text'', ''ab'')], [(''text'', ''b'')]], [\<lparr>seg_type = ''text'', seg_data = Some 0\<rparr>])
   \<and> \<not> adjacent_text (snd (build h0 calls))"
proof -
  have ex1: "segment_text [] ''a'' = Inr ([[(''text'', ''a'')]], \<lparr>seg_type = ''text'', seg_data = Some 0\<rparr>)"
    by (simp add: segment_text_def segment_init_kw_def alloc_def)
  have ex2: "segment_text [[(''text'', ''a'')]] ''b''
        = Inr ([[(''text'', ''a'')], [(''text'', ''b'')]], \<lparr>seg_type = ''text'', seg_data = Some 1\<rparr>)"
    by (simp add: segment_text_def segment_init_kw_def alloc_def)
  have ex3: "build [[(''text'', ''a'')], [(''text'', ''b'')]]
        [Append (ASegment \<lparr>seg_type = ''text'', seg_data = Some 0\<rparr>),
         Append (ASegment \<lparr>seg_type = ''text'', seg_data = Some 1\<rparr>)]
        = ([[(''text'', ''ab'')], [(''text'', ''b'')]], [\<lparr>seg_type = ''text'', seg_data = Some 0\<rparr>])"
    by (simp add: build_def append_obj_def append_segment_def iadd_text_def getattr_data_def
          getitem_data_def dict_getitem_def dict_setitem_def)
  have mapping: "append_obj h self (ADict r) = append_obj h self (ASegment \<lparr>seg_type = t, seg_data = raw_data r\<rparr>)"
    if "raw_type r = Some t" "t \<noteq> []"
    using that by (auto simp: append_obj_def segment_init_def append_segment_def split: sum.splits)
  show ?thesis
    using ex1 ex2 ex3 build_inv [of h0 calls] mapping
    by (auto simp: append_obj_def append_segment_merge append_segment_new dict_setitem_def
          update_conv')
qed

theorem append_merges_adjacent_text_witness:
  "append_obj [[(''text'', ''a'')], [(''text'', ''b'')]] [\<lparr>seg_type = ''text'', seg_data = Some 0\<rparr>]
       (ASegment \<lparr>seg_type = ''text'', seg_data = Some 1\<rparr>)
     = (([[(''text'', ''ab'')], [(''text'', ''b'')]], [\<lparr>seg_type = ''text'', seg_data = Some 0\<rparr>]), None)
   \<and> append_obj [[(''file'', ''x'')]] [] (ASegment \<lparr>seg_type = ''image'', seg_data = Some 0\<rparr>)
     = (([[(''file'', ''x'')]], [\<lparr>seg_type = ''image'', seg_data = Some 0\<rparr>]), None)
   \<and> append_obj [[(''file'', ''x'')]] [] (ADict \<lparr>raw_type = Some ''image'', raw_data = Some 0\<rparr>)
     = (([[(''file'', ''x'')]], [\<lparr>seg_type = ''image'', seg_data = Some 0\<rparr>]), None)
   \<and> \<not> adjacent_text (snd (build [] [Extend (AStr ''a''), Extend (AStr ''b'')]))"
  using append_merges_adjacent_text
          [where self = "[\<lparr>seg_type = ''text'', seg_data = Some 0\<rparr>]"
             and obj = "\<lparr>seg_type = ''text'', seg_data = Some 1\<rparr>"
             and a = 0 and b = 1 and x = "''a''" and y = "''b''"
             and h = "[[(''text'', ''a'')], [(''text'', ''b'')]]"
             and ?h0.0 = "[]" and calls = "[Extend (AStr ''a''), Extend (AStr ''b'')]"]
        append_merges_adjacent_text
          [where self = "[]" and obj = "\<lparr>seg_type = ''image'', seg_data = Some 0\<rparr>"
             and h = "[[(''file'', ''x'')]]"
             and r = "\<lparr>raw_type = Some ''image'', raw_data = Some 0\<rparr>" and t = "''image''"]
  by (simp add: dict_setitem_def)

section \<open>Reducing\<close>

text \<open>Where nothing is left to merge the loop only moves the index.\<close>

lemma reduce_loop_skip:
  "merged_before self idx \<Longrightarrow> idx \<le> length self \<Longrightarrow> j \<le> idx \<Longrightarrow>
     reduce_loop h self j = reduce_loop h self idx"
proof (induction "idx - j" arbitrary: j)
  case 0
  then show ?case by simp
next
  case (Suc n)
  then have j: "j < idx" "j < length self" by simp_all
  with Suc.prems(1)
  have "\<not> (0 < j \<and> seg_type (self ! (j - 1)) = ''text'' \<and> seg_type (self ! j) = ''text'')"
    by (auto simp: merged_before_def)
  with j have "reduce_loop h self j = reduce_loop h self (j + 1)"
    by (subst reduce_loop.simps) auto
  moreover have "reduce_loop h self (j + 1) = reduce_loop h self idx"
    using Suc.hyps(1) [of "j + 1"] Suc.hyps(2) Suc.prems j by simp
  ultimately show ?case by simp
qed

lemma merged_before_delete:
  "merged_before self idx \<Longrightarrow> idx < length self \<Longrightarrow> merged_before (delete_at idx self) idx"
  by (auto simp: merged_before_def delete_at_def nth_append)

lemma merged_before_Suc:
  "merged_before self idx \<Longrightarrow>
     \<not> (0 < idx \<and> seg_type (self ! (idx - 1)) = ''text'' \<and> seg_type (self ! idx) = ''text'') \<Longrightarrow>
     merged_before self (idx + 1)"
  unfolding merged_before_def
  by (metis Suc_eq_plus1 less_Suc_eq)

lemma reduce_loop_again:
  "merged_before self idx \<Longrightarrow> idx \<le> length self \<Longrightarrow>
     reduce_loop h self idx = ((h', self'), r) \<Longrightarrow> reduce_loop h' self' 0 = ((h', self'), r)"
proof (induction h self idx rule: reduce_loop.induct)
  case (1 h self idx)
  show ?case
  proof (cases "idx < length self")
    case False
    with "1.prems" have "reduce_loop h self idx = ((h, self), None)"
      by (subst reduce_loop.simps) simp
    with "1.prems" reduce_loop_skip [of self idx 0 h] show ?thesis by simp
  next
    case True
    note lt = True
    show ?thesis
    proof (cases "0 < idx \<and> seg_type (self ! (idx - 1)) = ''text'' \<and> seg_type (self ! idx) = ''text''")
      case False
      with lt have "reduce_loop h self idx = reduce_loop h self (idx + 1)"
        by (subst reduce_loop.simps) auto
      with "1.IH"(2) [OF lt _ merged_before_Suc [OF "1.prems"(1) False]] False lt "1.prems"(3)
      show ?thesis by auto
    next
      case True
      note both = True
      show ?thesis
      proof (cases "iadd_text h (self ! (idx - 1)) (self ! idx)")
        case (Inl e)
        with lt both have "reduce_loop h self idx = ((h, self), Some e)"
          by (subst reduce_loop.simps) simp
        with "1.prems" reduce_loop_skip [of self idx 0 h] show ?thesis by simp
      next
        case (Inr h1)
        with lt both have "reduce_loop h self idx = reduce_loop h1 (delete_at idx self) idx"
          by (subst reduce_loop.simps) simp
        moreover from lt have "idx \<le> length (delete_at idx self)"
          by (simp add: delete_at_def)
        ultimately show ?thesis
          using "1.IH"(1) [OF lt _ Inr merged_before_delete [OF "1.prems"(1) lt]] both "1.prems"(3)
          by auto
      qed
    qed
  qed
qed

lemma reduce_loop_merged:
  "merged_before self idx \<Longrightarrow> idx \<le> length self \<Longrightarrow>
     reduce_loop h self idx = ((h', self'), None) \<Longrightarrow> merged_before self' (length self')"
proof (induction h self idx rule: reduce_loop.induct)
  case (1 h self idx)
  show ?case
  proof (cases "idx < length self")
    case False
    with "1.prems" have "reduce_loop h self idx = ((h, self), None)"
      by (subst reduce_loop.simps) simp
    with "1.prems" False show ?thesis by simp
  next
    case True
    note lt = True
    show ?thesis
    proof (cases "0 < idx \<and> seg_type (self ! (idx - 1)) = ''text'' \<and> seg_type (self ! idx) = ''text''")
      case False
      with lt have "reduce_loop h self idx = reduce_loop h self (idx + 1)"
        by (subst reduce_loop.simps) auto
      with "1.IH"(2) [OF lt _ merged_before_Suc [OF "1.prems"(1) False]] False lt "1.prems"(3)
      show ?thesis by auto
    next
      case True
      note both = True
      show ?thesis
      proof (cases "iadd_text h (self ! (idx - 1)) (self ! idx)")
        case (Inl e)
        with lt both have "reduce_loop h self idx = ((h, self), Some e)"
          by (subst reduce_loop.simps) simp
        with "1.prems" show ?thesis by simp
      next
        case (Inr h1)
        with lt both have "reduce_loop h self idx = reduce_loop h1 (delete_at idx self) idx"
          by (subst reduce_loop.simps) simp
        moreover from lt have "idx \<le> length (delete_at idx self)"
          by (simp add: delete_at_def)
        ultimately show ?thesis
          using "1.IH"(1) [OF lt _ Inr merged_before_delete [OF "1.prems"(1) lt]] both "1.prems"(3)
          by auto
      qed
    qed
  qed
qed

lemma merged_before_tl:
  "merged_before (a # self) (Suc n) \<Longrightarrow> merged_before self n"
  unfolding merged_before_def
proof (intro allI impI)
  fix j
  assume all: "\<forall>j. 0 < j \<and> j < Suc n \<longrightarrow>
          \<not> (seg_type ((a # self) ! (j - 1)) = ''text'' \<and> seg_type ((a # self) ! j) = ''text'')"
    and j: "0 < j \<and> j < n"
  from all j have "\<not> (seg_type ((a # self) ! (Suc j - 1)) = ''text'' \<and> seg_type ((a # self) ! Suc j) = ''text'')"
    by (metis Suc_less_eq zero_less_Suc)
  with j show "\<not> (seg_type (self ! (j - 1)) = ''text'' \<and> seg_type (self ! j) = ''text'')"
    by (cases j) simp_all
qed

lemma merged_not_adjacent:
  "merged_before self (length self) \<Longrightarrow> \<not> adjacent_text self"
proof (induction self rule: adjacent_text.induct)
  case (1 a b m)
  from "1.prems" have "\<not> (seg_type a = ''text'' \<and> seg_type b = ''text'')"
    by (auto simp: merged_before_def dest: spec [of _ 1])
  moreover from "1.prems" have "merged_before (b # m) (length (b # m))"
    using merged_before_tl [of a "b # m" "length (b # m)"] by simp
  ultimately show ?case using "1.IH" by simp
qed simp_all

section \<open>Plain text\<close>

lemma extract_loop_payloads:
  "extract_loop h self result =
     (case text_payloads h self of
        Inl e \<Rightarrow> Inl e
      | Inr ts \<Rightarrow> Inr (result @ concat (map (\<lambda>t. CHR '' '' # t) ts)))"
  by (induction self arbitrary: result) (auto split: sum.splits)

lemma join_space: "join '' '' (t # ts) = t @ concat (map (\<lambda>t. CHR '' '' # t) ts)"
  by (induction ts arbitrary: t) simp_all

lemma extract_result:
  "(case extract_loop h self [] of
      Inl e \<Rightarrow> Inl e
    | Inr result \<Rightarrow> Inr (if result \<noteq> [] then drop 1 result else result))
   = joined_payloads h self"
proof (cases "text_payloads h self")
  case (Inl e)
  then show ?thesis by (simp add: extract_loop_payloads joined_payloads_def)
next
  case (Inr ts)
  then show ?thesis
    by (cases ts) (simp_all add: extract_loop_payloads joined_payloads_def join_space)
qed

lemma extract_no_reduce:
  "extract_plain_text h self False = ((h, self), joined_payloads h self)"
  by (simp add: extract_plain_text_def extract_result)

lemma extract_reduce:
  "extract_plain_text h self True =
     (case reduce h self of
        (st, Some e) \<Rightarrow> (st, Inl e)
      | ((h', self'), None) \<Rightarrow> ((h', self'), joined_payloads h' self'))"
  by (simp add: extract_plain_text_def extract_result split: prod.splits option.splits)

lemma no_text_payloads:
  "list_all (\<lambda>s. seg_type s \<noteq> ''text'') self \<Longrightarrow> text_payloads h self = Inr []"
  by (induction self) simp_all

text \<open>
  C8, amended. \<^verbatim>\<open>extract_plain_text\<close> reduces first when asked to, and returns the
  payloads of all segments of type \<^verbatim>\<open>'text'\<close>, the empty ones too, joined by single
  spaces; other segments contribute nothing. A message without text segments gives
  the empty string, and \<^verbatim>\<open>[text "a", image, text "b"]\<close> gives \<^verbatim>\<open>"a b"\<close>.
\<close>

theorem extract_plain_text_joins_all_payloads:
  "extract_plain_text h self False = ((h, self), joined_payloads h self)
   \<and> extract_plain_text h self True =
       (case reduce h self of
          (st, Some e) \<Rightarrow> (st, Inl e)
        | ((h', self'), None) \<Rightarrow> ((h', self'), joined_payloads h' self'))
   \<and> (list_all (\<lambda>s. seg_type s \<noteq> ''text'') self \<longrightarrow>
        extract_plain_text h self False = ((h, self), Inr []))
   \<and> snd (extract_plain_text [[(''text'', ''a'')], [(''file'', ''f'')], [(''text'', ''b'')]]
            [\<lparr>seg_type = ''text'', seg_data = Some 0\<rparr>, \<lparr>seg_type = ''image'', seg_data = Some 1\<rparr>,
             \<lparr>seg_type = ''text'', seg_data = Some 2\<rparr>] False) = Inr ''a b''"
  by (simp add: extract_no_reduce extract_reduce joined_payloads_def no_text_payloads
        getattr_data_def getitem_data_def dict_getitem_def)

theorem extract_plain_text_joins_all_payloads_witness:
  "list_all (\<lambda>s. seg_type s \<noteq> ''text'') [\<lparr>seg_type = ''image'', seg_data = Some 0\<rparr>]
   \<and> extract_plain_text [[(''file'', ''f'')]] [\<lparr>seg_type = ''image'', seg_data = Some 0\<rparr>] False
       = (([[(''file'', ''f'')]], [\<lparr>seg_type = ''image'', seg_data = Some 0\<rparr>]), Inr [])"
  using extract_plain_text_joins_all_payloads
          [of "[[(''file'', ''f'')]]" "[\<lparr>seg_type = ''image'', seg_data = Some 0\<rparr>]"]
  by (simp add: joined_payloads_def)

text \<open>
  C8 as stated fails: on \<^verbatim>\<open>[text "", image, text "b"]\<close> the method returns \<^verbatim>\<open>" b"\<close>,
  with a separator next to the empty payload, where a single space between the
  non-empty payloads gives \<^verbatim>\<open>"b"\<close>.
\<close>

theorem extract_plain_text_empty_payload_counterexample:
  "snd (extract_plain_text [[(''text'', '''')], [(''file'', ''f'')], [(''text'', ''b'')]]
          [\<lparr>seg_type = ''text'', seg_data = Some 0\<rparr>, \<lparr>seg_type = ''image'', seg_data = Some 1\<rparr>,
           \<lparr>seg_type = ''text'', seg_data = Some 2\<rparr>] False) = Inr '' b''
   \<and> joined_nonempty_payloads [[(''text'', '''')], [(''file'', ''f'')], [(''text'', ''b'')]]
          [\<lparr>seg_type = ''text'', seg_data = Some 0\<rparr>, \<lparr>seg_type = ''image'', seg_data = Some 1\<rparr>,
           \<lparr>seg_type = ''text'', seg_data = Some 2\<rparr>] = Inr ''b''
   \<and> snd (extract_plain_text [[(''text'', '''')], [(''file'', ''f'')], [(''text'', ''b'')]]
          [\<lparr>seg_type = ''text'', seg_data = Some 0\<rparr>, \<lparr>seg_type = ''image'', seg_data = Some 1\<rparr>,
           \<lparr>seg_type = ''text'', seg_data = Some 2\<rparr>] False)
     \<noteq> joined_nonempty_payloads [[(''text'', '''')], [(''file'', ''f'')], [(''text'', ''b'')]]
          [\<lparr>seg_type = ''text'', seg_data = Some 0\<rparr>, \<lparr>seg_type = ''image'', seg_data = Some 1\<rparr>,
           \<lparr>seg_type = ''text'', seg_data = Some 2\<rparr>]"
  by (simp add: extract_plain_text_def joined_nonempty_payloads_def
        getattr_data_def getitem_data_def dict_getitem_def)

section \<open>Parsing strings\<close>

text \<open>
  C3. Parsing is not total: the expression of \<^verbatim>\<open>_split_iter\<close> makes the equals sign
  optional (\<^verbatim>\<open>=?\<close>), so \<^verbatim>\<open>[CQ:a,b]\<close> is matched as a token, and unpacking \<^verbatim>\<open>k, v\<close>
  from its one piece raises; \<^verbatim>\<open>extend\<close> and the constructor turn that into their
  \<^verbatim>\<open>ValueError\<close>.
\<close>

theorem parse_raises_without_equals_sign:
  "split_iter ''[CQ:a,b]'' = ([], Some ValueError_unpack)
   \<and> extend [] [] (AStr ''[CQ:a,b]'') = (([], []), Some ValueError_extend)
   \<and> message_init [] (AStr ''[CQ:a,b]'') = ([], Inl ValueError_init)"
  by code_simp

text \<open>A token without a kind is not matched and stays text.\<close>

lemma parse_empty_kind: "split_iter ''[CQ:]'' = ([(''text'', [(''text'', ''[CQ:]'')])], None)"
  by code_simp

section \<open>Concatenation\<close>

text \<open>
  C2. \<^verbatim>\<open>+\<close> mutates its left operand: \<^verbatim>\<open>Message(self)\<close> holds the segments of \<^verbatim>\<open>self\<close>
  themselves, so appending text to the copy writes into the dict of the last segment
  of \<^verbatim>\<open>self\<close>. With \<^verbatim>\<open>m = Message('a')\<close>, after \<^verbatim>\<open>m + 'b'\<close> the message \<^verbatim>\<open>m\<close> renders as
  \<^verbatim>\<open>ab\<close>. The right operand is reached in the same way: adding a list of two text
  mappings to the empty message writes the merged payload into the \<^verbatim>\<open>data\<close> dict of
  the first mapping.
\<close>

theorem add_mutates_left_operand:
  "message_init [] (AStr ''a'') = ([[(''text'', ''a'')]], Inr [\<lparr>seg_type = ''text'', seg_data = Some 0\<rparr>])
   \<and> message_str [[(''text'', ''a'')]] [\<lparr>seg_type = ''text'', seg_data = Some 0\<rparr>] = Inr ''a''
   \<and> add [[(''text'', ''a'')]] [\<lparr>seg_type = ''text'', seg_data = Some 0\<rparr>] (AStr ''b'')
       = ([[(''text'', ''ab'')], [(''text'', ''b'')]], Inr [\<lparr>seg_type = ''text'', seg_data = Some 0\<rparr>])
   \<and> message_str [[(''text'', ''ab'')], [(''text'', ''b'')]] [\<lparr>seg_type = ''text'', seg_data = Some 0\<rparr>]
       = Inr ''ab''
   \<and> add [[(''text'', ''a'')], [(''text'', ''b'')]] []
         (AList [ADict \<lparr>raw_type = Some ''text'', raw_data = Some 0\<rparr>,
                 ADict \<lparr>raw_type = Some ''text'', raw_data = Some 1\<rparr>])
       = ([[(''text'', ''ab'')], [(''text'', ''b'')]], Inr [\<lparr>seg_type = ''text'', seg_data = Some 0\<rparr>])"
  by code_simp

section \<open>The regular expression\<close>

lemma key_char_facts:
  "is_key_char c \<Longrightarrow> c \<noteq> CHR '','' \<and> c \<noteq> CHR '']'' \<and> c \<noteq> CHR ''='' \<and> c \<noteq> CHR ''[''
     \<and> \<not> is_space c \<and> is_value_char c"
  unfolding is_key_char_def is_space_def is_value_char_def Let_def
  by auto

lemma span_stop:
  "list_all P xs \<Longrightarrow> \<not> P y \<Longrightarrow>
     takeWhile P (xs @ y # ys) = xs \<and> dropWhile P (xs @ y # ys) = y # ys"
  by (induction xs) simp_all

text \<open>What the search leaves behind a match, for the parts of the expression.\<close>

declare rx_match.simps [simp del]

lemma set_seq: "set (rx_match (Seq a b) s) = (\<Union>r \<in> set (rx_match a s). set (rx_match b r))"
  by (simp add: rx_match.simps)

lemma set_opt: "set (rx_match (Opt a) s) = set (rx_match a s) \<union> {s}"
  by (simp add: rx_match.simps)

lemma set_chr: "set (rx_match (Chr c) s) = {r. s = c # r}"
  by (cases s) (auto simp: rx_match.simps)

lemma set_cls: "set (rx_match (Cls P) s) = {r. \<exists>x. s = x # r \<and> P x}"
  by (cases s) (auto simp: rx_match.simps)

lemma set_star:
  "set (rx_match (Star a) s)
     = (\<Union>r \<in> {r \<in> set (rx_match a s). length r < length s}. set (rx_match (Star a) r)) \<union> {s}"
  by (subst rx_match.simps) auto

lemma set_star_cls: "set (rx_match (Star (Cls P)) s) = {r. \<exists>p. s = p @ r \<and> list_all P p}"
proof (induction s)
  case Nil
  show ?case by (subst set_star) (auto simp: set_cls)
next
  case (Cons x xs)
  show ?case
  proof (cases "P x")
    case True
    have "set (rx_match (Star (Cls P)) (x # xs)) = set (rx_match (Star (Cls P)) xs) \<union> {x # xs}"
      using True by (subst set_star) (auto simp: set_cls)
    also have "\<dots> = {r. \<exists>p. x # xs = p @ r \<and> list_all P p}"
    proof (intro set_eqI iffI)
      fix r assume "r \<in> set (rx_match (Star (Cls P)) xs) \<union> {x # xs}"
      then consider p where "xs = p @ r" "list_all P p" | "r = x # xs"
        using Cons.IH by auto
      then show "r \<in> {r. \<exists>p. x # xs = p @ r \<and> list_all P p}"
      proof cases
        case 1
        with True have "x # xs = (x # p) @ r \<and> list_all P (x # p)" by simp
        then show ?thesis by blast
      next
        case 2
        then have "x # xs = [] @ r \<and> list_all P []" by simp
        then show ?thesis by blast
      qed
    next
      fix r assume "r \<in> {r. \<exists>p. x # xs = p @ r \<and> list_all P p}"
      then obtain p where p: "x # xs = p @ r" "list_all P p" by auto
      show "r \<in> set (rx_match (Star (Cls P)) xs) \<union> {x # xs}"
      proof (cases p)
        case Nil
        with p show ?thesis by simp
      next
        case (Cons y p')
        with p have "xs = p' @ r" "list_all P p'" by simp_all
        with Cons.IH show ?thesis by auto
      qed
    qed
    finally show ?thesis .
  next
    case False
    have "set (rx_match (Star (Cls P)) (x # xs)) = {x # xs}"
      using False by (subst set_star) (auto simp: set_cls)
    also have "\<dots> = {r. \<exists>p. x # xs = p @ r \<and> list_all P p}"
    proof (intro set_eqI iffI)
      fix r assume "r \<in> {x # xs}"
      then have "x # xs = [] @ r \<and> list_all P []" by simp
      then show "r \<in> {r. \<exists>p. x # xs = p @ r \<and> list_all P p}" by blast
    next
      fix r assume "r \<in> {r. \<exists>p. x # xs = p @ r \<and> list_all P p}"
      then obtain p where p: "x # xs = p @ r" "list_all P p" by auto
      with False have "p = []" by (cases p) auto
      with p show "r \<in> {x # xs}" by simp
    qed
    finally show ?thesis .
  qed
qed

lemma set_plus_cls:
  "set (rx_match (rx_plus (Cls P)) s) = {r. \<exists>p. s = p @ r \<and> p \<noteq> [] \<and> list_all P p}"
proof (intro set_eqI iffI)
  fix r assume "r \<in> set (rx_match (rx_plus (Cls P)) s)"
  then obtain x r1 p where "s = x # r1" "P x" "r1 = p @ r" "list_all P p"
    by (auto simp: rx_plus_def set_seq set_cls set_star_cls)
  then have "s = (x # p) @ r \<and> x # p \<noteq> [] \<and> list_all P (x # p)" by simp
  then show "r \<in> {r. \<exists>p. s = p @ r \<and> p \<noteq> [] \<and> list_all P p}" by blast
next
  fix r assume "r \<in> {r. \<exists>p. s = p @ r \<and> p \<noteq> [] \<and> list_all P p}"
  then obtain p where p: "s = p @ r" "p \<noteq> []" "list_all P p" by auto
  then obtain x p' where "p = x # p'" by (cases p) auto
  with p have "s = x # (p' @ r)" "P x" "list_all P p'" by simp_all
  then show "r \<in> set (rx_match (rx_plus (Cls P)) s)"
    by (auto simp: rx_plus_def set_seq set_cls set_star_cls)
qed

lemma key_value_char: "is_key_char c \<Longrightarrow> is_value_char c"
  using key_char_facts by blast

lemma set_group: "set (rx_match rx_group s) = {r. \<exists>p. s = CHR '','' # p @ r \<and> piece p}"
proof (intro set_eqI iffI)
  fix r assume "r \<in> set (rx_match rx_group s)"
  then obtain r1 r2 r3 where r1: "s = CHR '','' # r1"
    and r2: "r2 \<in> set (rx_match (rx_plus (Cls is_key_char)) r1)"
    and r3: "r3 = r2 \<or> r2 = CHR ''='' # r3"
    and r: "r \<in> set (rx_match (Star (Cls is_value_char)) r3)"
    by (auto simp: rx_group_def set_seq set_opt set_chr)
  from r2 obtain k where k: "r1 = k @ r2" "k \<noteq> []" "list_all is_key_char k"
    by (auto simp: set_plus_cls)
  from r obtain v where v: "r3 = v @ r" "list_all is_value_char v"
    by (auto simp: set_star_cls)
  from r3 obtain e where e: "r2 = e @ r3" "list_all is_value_char e"
    by (auto simp: is_value_char_def intro: exI [of _ "[]"] exI [of _ "''=''"])
  from k have hd: "is_key_char (hd (k @ e @ v))" by (cases k) auto
  from k(3) have "list_all is_value_char k" by (auto simp: list_all_iff key_value_char)
  with r1 k e v hd have "s = CHR '','' # (k @ e @ v) @ r \<and> piece (k @ e @ v)"
    by (simp add: piece_def)
  then show "r \<in> {r. \<exists>p. s = CHR '','' # p @ r \<and> piece p}" by blast
next
  fix r assume "r \<in> {r. \<exists>p. s = CHR '','' # p @ r \<and> piece p}"
  then obtain p where p: "s = CHR '','' # p @ r" "piece p" by auto
  then obtain x v where x: "p = x # v" "is_key_char x" "list_all is_value_char v"
    by (cases p) (auto simp: piece_def)
  have 1: "v @ r \<in> set (rx_match (rx_plus (Cls is_key_char)) (x # v @ r))"
    using x(2) by (auto simp: set_plus_cls intro: exI [of _ "[x]"])
  have 2: "r \<in> set (rx_match (Star (Cls is_value_char)) (v @ r))"
    using x(3) by (auto simp: set_star_cls)
  from p x 1 2 show "r \<in> set (rx_match rx_group s)"
    by (auto simp: rx_group_def set_seq set_opt set_chr)
qed

lemma set_params:
  "set (rx_match rx_params s) = {r. \<exists>ps. s = groups_str ps @ r \<and> list_all piece ps}"
proof (induction "length s" arbitrary: s rule: less_induct)
  case less
  have step: "set (rx_match rx_params s)
      = (\<Union>r \<in> {r. \<exists>p. s = CHR '','' # p @ r \<and> piece p}. set (rx_match rx_params r)) \<union> {s}"
    unfolding rx_params_def by (subst set_star) (auto simp: set_group)
  show ?case
  proof (intro set_eqI iffI)
    fix r assume "r \<in> set (rx_match rx_params s)"
    then consider "r = s" | p u where "s = CHR '','' # p @ u" "piece p" "r \<in> set (rx_match rx_params u)"
      unfolding step by auto
    then show "r \<in> {r. \<exists>ps. s = groups_str ps @ r \<and> list_all piece ps}"
    proof cases
      case 1
      then have "s = groups_str [] @ r \<and> list_all piece []" by (simp add: groups_str_def)
      then show ?thesis by blast
    next
      case 2
      then have "length u < length s" by simp
      from less [OF this] 2(3) obtain ps where "u = groups_str ps @ r" "list_all piece ps"
        by auto
      with 2 have "s = groups_str (p # ps) @ r \<and> list_all piece (p # ps)"
        by (simp add: groups_str_def)
      then show ?thesis by blast
    qed
  next
    fix r assume "r \<in> {r. \<exists>ps. s = groups_str ps @ r \<and> list_all piece ps}"
    then obtain ps where ps: "s = groups_str ps @ r" "list_all piece ps" by auto
    show "r \<in> set (rx_match rx_params s)"
    proof (cases ps)
      case Nil
      with ps show ?thesis unfolding step by (simp add: groups_str_def)
    next
      case (Cons p ps')
      with ps have s: "s = CHR '','' # p @ (groups_str ps' @ r)" "piece p" "list_all piece ps'"
        by (simp_all add: groups_str_def)
      then have "length (groups_str ps' @ r) < length s" by simp
      from less [OF this] s(3) have "r \<in> set (rx_match rx_params (groups_str ps' @ r))"
        by auto
      with s(1,2) show ?thesis unfolding step by blast
    qed
  qed
qed

lemma set_tail:
  "set (rx_match rx_tail s) = {r. s = CHR '']'' # r \<or> s = CHR '','' # CHR '']'' # r}"
  by (auto simp: rx_tail_def set_seq set_opt set_chr)

lemma set_head: "set (rx_match rx_head s) = {r. s = ''[CQ:'' @ r}"
  by (auto simp: rx_head_def set_seq set_chr)

lemma set_type:
  "set (rx_match rx_type s) = {r. \<exists>p. s = p @ r \<and> p \<noteq> [] \<and> list_all is_key_char p}"
  by (simp add: rx_type_def set_plus_cls)

lemma in_candidates:
  "x \<in> set (cq_candidates s) \<longleftrightarrow>
     (\<exists>r0 \<in> set (rx_match rx_head s). \<exists>r1 \<in> set (rx_match rx_type r0).
      \<exists>r2 \<in> set (rx_match rx_params r1). \<exists>r3 \<in> set (rx_match rx_tail r2).
        x = (take (length r0 - length r1) r0, take (length r1 - length r2) r1, r3))"
  unfolding cq_candidates_def by simp blast

lemma set_candidates: "set (cq_candidates s) = cq_shape s"
proof (intro set_eqI iffI)
  fix x assume "x \<in> set (cq_candidates s)"
  then obtain r0 r1 r2 r3 where r0: "r0 \<in> set (rx_match rx_head s)"
    and r1: "r1 \<in> set (rx_match rx_type r0)"
    and r2: "r2 \<in> set (rx_match rx_params r1)"
    and r3: "r3 \<in> set (rx_match rx_tail r2)"
    and x: "x = (take (length r0 - length r1) r0, take (length r1 - length r2) r1, r3)"
    unfolding in_candidates by blast
  from r0 have s: "s = ''[CQ:'' @ r0" by (simp add: set_head)
  from r1 obtain ty where ty: "r0 = ty @ r1" "ty \<noteq> []" "list_all is_key_char ty"
    unfolding set_type by blast
  from r2 obtain ps where ps: "r1 = groups_str ps @ r2" "list_all piece ps"
    unfolding set_params by blast
  from r3 obtain t where t: "r2 = t @ r3" "t = '']'' \<or> t = '',]''"
    unfolding set_tail by auto
  from ty ps x have "x = (ty, groups_str ps, r3)" by simp
  moreover from s ty ps t have "s = ''[CQ:'' @ ty @ groups_str ps @ t @ r3" by simp
  ultimately show "x \<in> cq_shape s" unfolding cq_shape_def using ty ps t by blast
next
  fix x assume "x \<in> cq_shape s"
  then obtain ty ps t r3 where x: "x = (ty, groups_str ps, r3)"
    and s: "s = ''[CQ:'' @ ty @ groups_str ps @ t @ r3"
    and ty: "ty \<noteq> []" "list_all is_key_char ty"
    and ps: "list_all piece ps" and t: "t = '']'' \<or> t = '',]''"
    unfolding cq_shape_def by blast
  let ?r0 = "ty @ groups_str ps @ t @ r3"
  let ?r1 = "groups_str ps @ t @ r3"
  let ?r2 = "t @ r3"
  have 0: "?r0 \<in> set (rx_match rx_head s)" using s by (simp add: set_head)
  have 1: "?r1 \<in> set (rx_match rx_type ?r0)" unfolding set_type using ty by blast
  have 2: "?r2 \<in> set (rx_match rx_params ?r1)" unfolding set_params using ps by blast
  have 3: "r3 \<in> set (rx_match rx_tail ?r2)" unfolding set_tail using t by auto
  have "x = (take (length ?r0 - length ?r1) ?r0, take (length ?r1 - length ?r2) ?r1, r3)"
    using x by simp
  with 0 1 2 3 show "x \<in> set (cq_candidates s)"
    unfolding in_candidates by blast
qed

lemma groups_head:
  "t = '']'' \<or> t = '',]'' \<Longrightarrow>
     \<exists>y ys. groups_str ps @ t @ rest = y # ys \<and> \<not> is_value_char y"
  by (cases ps) (auto simp: groups_str_def is_value_char_def)

text \<open>The scan accepts exactly the strings of the shape the expression describes.\<close>

lemma cq_groups_pieces:
  "list_all piece ps \<Longrightarrow> t = '']'' \<or> t = '',]'' \<Longrightarrow>
     cq_groups (groups_str ps @ t @ rest) = Some (groups_str ps, rest)"
proof (induction ps)
  case Nil
  then show ?case by (subst cq_groups.simps) (auto simp: groups_str_def)
next
  case (Cons p ps)
  then have pc: "piece p" and IH: "cq_groups (groups_str ps @ t @ rest) = Some (groups_str ps, rest)"
    by simp_all
  from pc obtain c cs where p: "p = c # cs" "is_key_char c" "list_all is_value_char p"
    by (cases p) (auto simp: piece_def)
  obtain y ys where y: "groups_str ps @ t @ rest = y # ys" "\<not> is_value_char y"
    using groups_head [OF Cons.prems(2), of ps rest] by auto
  have span: "takeWhile is_value_char (p @ y # ys) = p" "dropWhile is_value_char (p @ y # ys) = y # ys"
    using span_stop [OF p(3) y(2)] by simp_all
  have str: "groups_str (p # ps) @ t @ rest = CHR '','' # (p @ y # ys)"
    using y(1) by (simp add: groups_str_def)
  have c: "c \<noteq> CHR '']''" using key_char_facts [OF p(2)] by simp
  show ?case
    unfolding str
    apply (subst cq_groups.simps)
    using p(1,2) c span IH y(1)
    apply (simp add: groups_str_def)
    done
qed

lemma cq_groups_shape:
  "cq_groups u = Some (params, rest) \<Longrightarrow>
     \<exists>ps t. u = params @ t @ rest \<and> params = groups_str ps \<and> list_all piece ps
       \<and> (t = '']'' \<or> t = '',]'')"
proof (induction u arbitrary: params rest rule: cq_groups.induct)
  case (1 u)
  show ?case
  proof (cases u)
    case Nil
    with "1.prems" show ?thesis by (simp add: cq_groups.simps)
  next
    case (Cons a as)
    note u = Cons
    show ?thesis
    proof (cases "a = CHR '']''")
      case True
      with "1.prems" u have "params = []" "rest = as" by (simp_all add: cq_groups.simps)
      with True u have "u = params @ '']'' @ rest \<and> params = groups_str [] \<and> list_all piece []"
        by (simp add: groups_str_def)
      then show ?thesis by blast
    next
      case False
      note nb = False
      show ?thesis
      proof (cases as)
        case Nil
        with "1.prems" u nb show ?thesis by (simp add: cq_groups.simps split: if_splits)
      next
        case (Cons b bs)
        note as = Cons
        show ?thesis
        proof (cases "b = CHR '']''")
          case True
          with "1.prems" u nb as have "a = CHR '',''" "params = []" "rest = bs"
            by (simp_all add: cq_groups.simps split: if_splits)
          with True u as have "u = params @ '',]'' @ rest \<and> params = groups_str [] \<and> list_all piece []"
            by (simp add: groups_str_def)
          then show ?thesis by blast
        next
          case False
          from "1.prems" u nb as False
          have comma: "a = CHR '',''" and key: "is_key_char b"
            by (simp_all add: cq_groups.simps split: if_splits)
          from "1.prems" u nb as False comma key
          obtain qs where rec: "cq_groups (dropWhile is_value_char as) = Some (qs, rest)"
            and params: "params = CHR '','' # takeWhile is_value_char as @ qs"
            by (subst (asm) cq_groups.simps) (auto split: option.splits)
          from "1.IH" [OF u nb comma as False key rec]
          obtain ps t where d: "dropWhile is_value_char as = qs @ t @ rest" "qs = groups_str ps"
            "list_all piece ps" "t = '']'' \<or> t = '',]''"
            by blast
          let ?p = "takeWhile is_value_char as"
          have "piece ?p"
            using as key key_value_char [OF key]
            by (auto simp: piece_def list_all_iff dest: set_takeWhileD)
          moreover have "as = ?p @ dropWhile is_value_char as" by simp
          with u comma d(1) params have "u = params @ t @ rest" by simp
          moreover have "params = groups_str (?p # ps)"
            using params d(2) by (simp add: groups_str_def)
          ultimately show ?thesis using d(3,4) by (intro exI [of _ "?p # ps"] exI [of _ t]) simp
        qed
      qed
    qed
  qed
qed

lemma type_head:
  "t = '']'' \<or> t = '',]'' \<Longrightarrow>
     \<exists>y ys. groups_str ps @ t @ rest = y # ys \<and> \<not> is_key_char y"
  using groups_head [of t ps rest] key_value_char by blast

lemma cq_match_shape: "cq_match s = Some x \<longleftrightarrow> x \<in> cq_shape s"
proof
  assume m: "cq_match s = Some x"
  obtain ty params rest where x: "x = (ty, params, rest)" by (cases x)
  let ?t = "drop 4 s"
  from m x have pre: "prefix ''[CQ:'' s" and ty: "ty = takeWhile is_key_char ?t" "ty \<noteq> []"
    and g: "cq_groups (dropWhile is_key_char ?t) = Some (params, rest)"
    by (auto simp: cq_match_def Let_def split: if_splits option.splits)
  from pre have s: "s = ''[CQ:'' @ ?t" by (auto simp: prefix_def)
  from cq_groups_shape [OF g] obtain ps t where
    d: "dropWhile is_key_char ?t = params @ t @ rest" "params = groups_str ps" "list_all piece ps"
       "t = '']'' \<or> t = '',]''"
    by blast
  have "?t = ty @ dropWhile is_key_char ?t" using ty(1) by simp
  with s d(1) have "s = ''[CQ:'' @ ty @ params @ t @ rest" by metis
  moreover have "list_all is_key_char ty"
    using ty(1) by (auto simp: list_all_iff dest: set_takeWhileD)
  ultimately show "x \<in> cq_shape s"
    unfolding cq_shape_def using x ty(2) d(2,3,4) by blast
next
  assume "x \<in> cq_shape s"
  then obtain ty ps t r3 where x: "x = (ty, groups_str ps, r3)"
    and s: "s = ''[CQ:'' @ ty @ groups_str ps @ t @ r3"
    and ty: "ty \<noteq> []" "list_all is_key_char ty"
    and ps: "list_all piece ps" and t: "t = '']'' \<or> t = '',]''"
    unfolding cq_shape_def by blast
  obtain y ys where y: "groups_str ps @ t @ r3 = y # ys" "\<not> is_key_char y"
    using type_head [OF t, of ps r3] by auto
  have "takeWhile is_key_char (ty @ y # ys) = ty" "dropWhile is_key_char (ty @ y # ys) = y # ys"
    using span_stop [OF ty(2) y(2)] by simp_all
  moreover have "s = ''[CQ:'' @ ty @ y # ys" using s y(1) by simp
  ultimately show "cq_match s = Some x"
    using ty(1) cq_groups_pieces [OF ps t, of r3] y(1) x
    by (simp add: cq_match_def Let_def)
qed

text \<open>
  The scan of the model and the backtracking search agree: \<open>cq_match\<close> returns the
  first match the search finds, with the same groups, and \<open>None\<close> when the search
  finds none.
\<close>

lemma cq_match_backtracking:
  "cq_match s = (case cq_candidates s of [] \<Rightarrow> None | x # xs \<Rightarrow> Some x)"
proof (cases "cq_candidates s")
  case Nil
  then have "cq_shape s = {}" using set_candidates [of s] by simp
  then have "cq_match s = None" using cq_match_shape [of s] by (cases "cq_match s") auto
  with Nil show ?thesis by simp
next
  case (Cons x xs)
  then have "x \<in> cq_shape s" using set_candidates [of s] by auto
  then have "cq_match s = Some x" by (simp add: cq_match_shape)
  with Cons show ?thesis by simp
qed

section \<open>Tokens\<close>

lemma params_str_head:
  "\<exists>y ys. params_str d @ CHR '']'' # rest = y # ys \<and> \<not> is_value_char y \<and> \<not> is_key_char y"
  by (cases d) (auto simp: params_str_def is_value_char_def dest: key_char_facts)

lemma param_str_value_chars: "param_ok p \<Longrightarrow> list_all is_value_char (param_str p)"
  by (auto simp: param_ok_def param_str_def key_string_def list_all_iff is_value_char_def
           dest: key_char_facts)

lemma param_str_head: "param_ok p \<Longrightarrow> \<exists>c cs. param_str p = c # cs \<and> is_key_char c"
  by (cases "fst p") (auto simp: param_ok_def param_str_def key_string_def)

text \<open>The expression matches a token from its first to its last character.\<close>

lemma params_groups: "params_str d = groups_str (map param_str d)"
  by (simp add: params_str_def groups_str_def comp_def)

lemma param_str_piece: "param_ok p \<Longrightarrow> piece (param_str p)"
  using param_str_head [of p] param_str_value_chars [of p] by (auto simp: piece_def)

lemma cq_groups_params:
  "list_all param_ok d \<Longrightarrow> cq_groups (params_str d @ CHR '']'' # rest) = Some (params_str d, rest)"
  using cq_groups_pieces [of "map param_str d" "'']''" rest]
  by (simp add: params_groups list_all_iff param_str_piece)

lemma cq_match_token:
  assumes "key_string type" "list_all param_ok d"
  shows "cq_match (token type d @ rest) = Some (type, params_str d, rest)"
proof -
  obtain y ys where y: "params_str d @ CHR '']'' # rest = y # ys" "\<not> is_key_char y"
    using params_str_head [of d rest] by auto
  from assms(1) have ty: "type \<noteq> []" "list_all is_key_char type"
    by (simp_all add: key_string_def)
  have "takeWhile is_key_char (type @ y # ys) = type" "dropWhile is_key_char (type @ y # ys) = y # ys"
    using span_stop [OF ty(2) y(2)] by simp_all
  moreover have "token type d @ rest = ''[CQ:'' @ type @ y # ys"
    using y(1) by (simp add: token_def)
  ultimately show ?thesis
    using ty(1) cq_groups_params [OF assms(2), of rest] y(1)
    by (simp add: cq_match_def Let_def)
qed

text \<open>Splitting the parameters of a token gives its keys and values back.\<close>

lemma join_params: "join '','' (x # map param_str d) = x @ params_str d"
  by (induction d arbitrary: x) (simp_all add: params_str_def)

lemma lstrip_comma_params:
  "list_all param_ok d \<Longrightarrow> lstrip_comma (params_str d) = join '','' (map param_str d)"
proof (cases d)
  case Nil
  then show ?thesis by (simp add: lstrip_comma_def params_str_def)
next
  case (Cons p d')
  assume "list_all param_ok d"
  with Cons have "param_ok p" by simp
  then obtain c cs where pc: "param_str p = c # cs" "is_key_char c"
    using param_str_head by blast
  then have "c \<noteq> CHR '',''" using key_char_facts by blast
  with pc(1) have "lstrip_comma (params_str (p # d')) = param_str p @ params_str d'"
    by (simp add: lstrip_comma_def params_str_def)
  with Cons show ?thesis by (simp add: join_params)
qed

lemma split_none: "sep \<notin> set x \<Longrightarrow> split sep x = [x]"
  by (induction x) auto

lemma split_append: "sep \<notin> set x \<Longrightarrow> split sep (x @ sep # rest) = x # split sep rest"
  by (induction x) auto

lemma split_join:
  "list_all (\<lambda>x. CHR '','' \<notin> set x) (x # xs) \<Longrightarrow> split CHR '','' (join '','' (x # xs)) = x # xs"
  by (induction xs arbitrary: x) (simp_all add: split_none split_append)

lemma param_str_no_comma: "param_ok p \<Longrightarrow> CHR '','' \<notin> set (param_str p)"
  using param_str_value_chars [of p] by (auto simp: list_all_iff is_value_char_def)

lemma lstrip_param_str: "param_ok p \<Longrightarrow> lstrip (param_str p) = param_str p"
  using param_str_head [of p] key_char_facts by (auto simp: lstrip_def)

lemma split1_param_str: "param_ok p \<Longrightarrow> split1 CHR ''='' (param_str p) = [fst p, snd p]"
proof -
  assume "param_ok p"
  then have k: "list_all (\<lambda>c. c \<noteq> CHR ''='') (fst p)"
    using key_char_facts by (auto simp: param_ok_def key_string_def list_all_iff)
  have "takeWhile (\<lambda>c. c \<noteq> CHR ''='') (fst p @ CHR ''='' # snd p) = fst p"
       "dropWhile (\<lambda>c. c \<noteq> CHR ''='') (fst p @ CHR ''='' # snd p) = CHR ''='' # snd p"
    using span_stop [OF k, of "CHR ''=''" "snd p"] by simp_all
  then show ?thesis by (simp add: split1_def param_str_def)
qed

lemma dict_of_pieces_pairs:
  "dict_of_pieces d (map (\<lambda>p. [fst p, snd p]) kvs)
     = Inr (foldl (\<lambda>d p. dict_setitem d (fst p) (snd p)) d kvs)"
  by (induction kvs arbitrary: d) simp_all

lemma parse_data_params:
  assumes "list_all param_ok d"
  shows "parse_data (lstrip_comma (params_str d)) = Inr (dict_of d)"
proof (cases d)
  case Nil
  then show ?thesis
    by (simp add: parse_data_def lstrip_comma_def params_str_def dict_of_def lstrip_def)
next
  case (Cons p d')
  from assms have nc: "list_all (\<lambda>x. CHR '','' \<notin> set x) (map param_str d)"
    by (auto simp: list_all_iff param_str_no_comma)
  have "lstrip_comma (params_str d) = join '','' (param_str p # map param_str d')"
    using lstrip_comma_params [OF assms] Cons by simp
  moreover have "split CHR '','' (join '','' (param_str p # map param_str d')) = map param_str d"
    using split_join [of "param_str p" "map param_str d'"] nc Cons by simp
  ultimately have "split CHR '','' (lstrip_comma (params_str d)) = map param_str d"
    by simp
  then have 1: "split CHR '','' (lstrip_comma (params_str d)) = map param_str d"
    by simp
  have 2: "map lstrip (map param_str d) = map param_str d"
    using assms by (induction d) (simp_all add: lstrip_param_str)
  have 3: "filter (\<lambda>x. x \<noteq> []) (map param_str d) = map param_str d"
    using assms param_str_head by (fastforce simp: list_all_iff filter_id_conv)
  have 4: "map (split1 CHR ''='') (map param_str d) = map (\<lambda>p. [fst p, snd p]) d"
    using assms by (induction d) (simp_all add: split1_param_str)
  show ?thesis
    by (simp only: parse_data_def 1 2 3 4 dict_of_pieces_pairs dict_of_def)
qed

lemma update_fresh: "k \<notin> fst ` set d \<Longrightarrow> AList.update k v d = d @ [(k, v)]"
  by (induction d) auto

lemma foldl_setitem_distinct:
  "distinct (map fst (d @ kvs)) \<Longrightarrow>
     foldl (\<lambda>d p. dict_setitem d (fst p) (snd p)) d kvs = d @ kvs"
proof (induction kvs arbitrary: d)
  case Nil
  then show ?case by simp
next
  case (Cons p kvs)
  from Cons.prems have "fst p \<notin> fst ` set d" by auto
  then have "dict_setitem d (fst p) (snd p) = d @ [p]"
    by (simp add: dict_setitem_def update_fresh)
  with Cons.IH [of "d @ [p]"] Cons.prems show ?case by simp
qed

lemma dict_of_distinct: "distinct (map fst kvs) \<Longrightarrow> dict_of kvs = kvs"
  using foldl_setitem_distinct [of "[]" kvs] by (simp add: dict_of_def)

text \<open>Text without an opening bracket is passed over, a token is yielded.\<close>

lemma cq_match_other: "c \<noteq> CHR ''['' \<Longrightarrow> cq_match (c # cs) = None"
  by (simp add: cq_match_def)

lemma iter_end: "iter_function_name_and_extra acc [] = [(''text'', acc)]"
  by (subst iter_function_name_and_extra.simps) simp

lemma iter_text:
  "CHR ''['' \<notin> set tx \<Longrightarrow>
     iter_function_name_and_extra acc (tx @ rest) = iter_function_name_and_extra (acc @ tx) rest"
proof (induction tx arbitrary: acc)
  case Nil
  then show ?case by simp
next
  case (Cons c tx)
  then have "c \<noteq> CHR ''[''" by auto
  then have "cq_match (c # tx @ rest) = None" by (rule cq_match_other)
  then have "iter_function_name_and_extra acc ((c # tx) @ rest)
               = iter_function_name_and_extra (acc @ [c]) (tx @ rest)"
    by (subst iter_function_name_and_extra.simps) simp
  with Cons.IH [of "acc @ [c]"] Cons.prems show ?case by simp
qed

lemma iter_token:
  assumes "key_string type" "list_all param_ok d"
  shows "iter_function_name_and_extra acc (token type d @ rest)
           = (''text'', acc) # (type, lstrip_comma (params_str d)) # iter_function_name_and_extra [] rest"
proof -
  obtain cs where t: "token type d @ rest = CHR ''['' # cs" by (simp add: token_def)
  show ?thesis
    by (subst iter_function_name_and_extra.simps)
       (use t cq_match_token [OF assms, of rest] in simp)
qed

lemma split_token:
  assumes "key_string type" "type \<noteq> ''text''" "list_all param_ok kvs" "CHR ''['' \<notin> set pre"
  shows "split_segments (iter_function_name_and_extra acc (pre @ token type kvs @ rest))
           = (pending (acc @ pre) @ (type, dict_of kvs) # fst (split_segments (iter_function_name_and_extra [] rest)),
              snd (split_segments (iter_function_name_and_extra [] rest)))"
  using assms
  by (simp add: iter_text iter_token parse_data_params pending_def split: prod.splits)

text \<open>
  A token behind text without an opening bracket is parsed into a segment of its
  type whose params are built by splitting the inner content on commas and each piece
  on the first equals sign; each value is stored under its key as it stands in the
  string.
\<close>

lemma split_iter_token:
  "key_string type \<Longrightarrow> type \<noteq> ''text'' \<Longrightarrow> list_all param_ok kvs \<Longrightarrow> CHR ''['' \<notin> set pre \<Longrightarrow>
     split_iter (pre @ token type kvs @ rest)
       = (pending pre @ (type, dict_of kvs) # fst (split_iter rest), snd (split_iter rest))"
  unfolding split_iter_def using split_token [of type kvs pre "[]" rest] by simp

lemma split_iter_token_example:
  "split_iter ''see [CQ:at,qq=123]'' = ([(''text'', [(''text'', ''see '')]), (''at'', [(''qq'', ''123'')])], None)"
proof -
  have hyp: "key_string ''at''" "''at'' \<noteq> ''text''" "list_all param_ok [(''qq'', ''123'')]"
      "CHR ''['' \<notin> set ''see ''"
    by (simp_all add: key_string_def param_ok_def is_key_char_def is_value_char_def)
  have e: "split_iter [] = ([], None)"
    by (simp add: split_iter_def iter_end)
  from split_iter_token [OF hyp, of "[]"] e
  show ?thesis
    by (simp add: token_def params_str_def param_str_def pending_def dict_of_def dict_setitem_def)
qed

text \<open>
  C1. Parsing does not unescape the values: \<^verbatim>\<open>unescape\<close> is defined in the module and
  called nowhere, while \<^verbatim>\<open>MessageSegment.__str__\<close> escapes every value. The share
  segment with the params \<^verbatim>\<open>{title: "a,b"}\<close> is composed as \<^verbatim>\<open>[CQ:share,title=a&#44;b]\<close>;
  \<^verbatim>\<open>_split_iter\<close> stores \<^verbatim>\<open>a&#44;b\<close> for that fragment, and so does the constructor,
  where \<^verbatim>\<open>unescape\<close> gives \<^verbatim>\<open>a,b\<close>. Composing the parsed message escapes the
  ampersand once more, so the code does not read its own output back.
\<close>

theorem parse_does_not_unescape:
  "segment_str [[(''title'', ''a,b'')]] \<lparr>seg_type = ''share'', seg_data = Some 0\<rparr>
       = Inr ''[CQ:share,title=a&#44;b]''
   \<and> split_iter ''[CQ:share,title=a&#44;b]'' = ([(''share'', [(''title'', ''a&#44;b'')])], None)
   \<and> message_init [] (AStr ''[CQ:share,title=a&#44;b]'')
       = ([[(''title'', ''a&#44;b'')]], Inr [\<lparr>seg_type = ''share'', seg_data = Some 0\<rparr>])
   \<and> unescape ''a&#44;b'' = ''a,b'' \<and> ''a&#44;b'' \<noteq> ''a,b''
   \<and> message_str [[(''title'', ''a&#44;b'')]] [\<lparr>seg_type = ''share'', seg_data = Some 0\<rparr>]
       = Inr ''[CQ:share,title=a&amp;#44;b]''"
  by code_simp

section \<open>The round trip\<close>

lemma escape_plain_text: "plain_text t \<Longrightarrow> escape t False = t"
  unfolding escape_concat plain_text_def by (induction t) (simp_all add: esc_char_def)

lemma escape_plain_value: "plain_value v \<Longrightarrow> escape v True = v"
  unfolding escape_concat plain_value_def by (induction v) (simp_all add: esc_char_def)

lemma plain_value_param_ok: "key_string (fst p) \<Longrightarrow> plain_value (snd p) \<Longrightarrow> param_ok p"
  by (auto simp: param_ok_def plain_value_def is_value_char_def list_all_iff)

lemma content_ok_text:
  "content_ok v \<Longrightarrow> fst v = ''text'' \<Longrightarrow> \<exists>t. v = (''text'', [(''text'', t)]) \<and> t \<noteq> [] \<and> plain_text t"
  by (cases v) (auto simp: content_ok_def Let_def)

lemma content_ok_token:
  "content_ok v \<Longrightarrow> fst v \<noteq> ''text'' \<Longrightarrow>
     key_string (fst v) \<and> list_all param_ok (snd v) \<and> distinct (map fst (snd v))
     \<and> list_all (\<lambda>p. plain_value (snd p)) (snd v)"
  by (auto simp: content_ok_def list_all_iff plain_value_param_ok)

lemma merge_adjacent_token:
  "fst a \<noteq> ''text'' \<Longrightarrow> merge_adjacent (a # vs) = a # merge_adjacent vs"
  by (cases vs) simp_all

lemma merge_adjacent_before_token:
  "fst b \<noteq> ''text'' \<Longrightarrow> merge_adjacent (a # b # vs) = a # b # merge_adjacent vs"
  by (simp add: merge_adjacent_token)

lemma plain_text_no_bracket: "plain_text t \<Longrightarrow> CHR ''['' \<notin> set t"
  by (auto simp: plain_text_def list_all_iff)

text \<open>Parsing the rendered contents merges neighbouring text.\<close>

lemma parse_rendered:
  "list_all content_ok vs \<Longrightarrow>
     split_segments (iter_function_name_and_extra acc (concat (map render vs)))
       = (merge_adjacent (pending acc @ vs), None)"
proof (induction vs arbitrary: acc)
  case Nil
  show ?case by (simp add: iter_end pending_def)
next
  case (Cons v vs)
  then have ok: "content_ok v" and oks: "list_all content_ok vs" by simp_all
  show ?case
  proof (cases "fst v = ''text''")
    case True
    then obtain t where v: "v = (''text'', [(''text'', t)])" and t: "t \<noteq> []" "plain_text t"
      using content_ok_text [OF ok] by auto
    have "split_segments (iter_function_name_and_extra acc (concat (map render (v # vs))))
            = split_segments (iter_function_name_and_extra (acc @ t) (concat (map render vs)))"
      using v iter_text [OF plain_text_no_bracket [OF t(2)]]
      by (simp add: render_def dict_get_def)
    also have "\<dots> = (merge_adjacent (pending (acc @ t) @ vs), None)"
      by (rule Cons.IH [OF oks])
    also have "merge_adjacent (pending (acc @ t) @ vs) = merge_adjacent (pending acc @ v # vs)"
      using v t(1) by (simp add: pending_def combine_def dict_get_def dict_setitem_def)
    finally show ?thesis .
  next
    case False
    from content_ok_token [OF ok False]
    have k: "key_string (fst v)" and p: "list_all param_ok (snd v)" and d: "distinct (map fst (snd v))"
      by simp_all
    have "concat (map render (v # vs)) = [] @ token (fst v) (snd v) @ concat (map render vs)"
      using False by (simp add: render_def)
    then have "split_segments (iter_function_name_and_extra acc (concat (map render (v # vs))))
            = (pending acc @ (fst v, dict_of (snd v)) # merge_adjacent vs, None)"
      using split_token [OF k False p, of "[]" acc "concat (map render vs)"]
            Cons.IH [OF oks, of "[]"]
      by (simp add: pending_def)
    moreover have "merge_adjacent (pending acc @ v # vs) = pending acc @ v # merge_adjacent vs"
      using False by (simp add: pending_def merge_adjacent_token)
    ultimately show ?thesis
      using dict_of_distinct [OF d] by (cases v) simp
  qed
qed

lemma view_append [simp]: "view h (xs @ ys) = view h xs @ view h ys"
  by (simp add: view_def)

lemma view_Cons [simp]: "view h (s # ys) = (seg_type s, h ! the (seg_data s)) # view h ys"
  by (simp add: view_def)

lemma view_Nil [simp]: "view h [] = []"
  by (simp add: view_def)

lemma view_update_other:
  "Some a \<notin> set (map seg_data self) \<Longrightarrow> list_all (\<lambda>s. seg_data s \<noteq> None) self \<Longrightarrow>
     view (h[a := d]) self = view h self"
  by (induction self) auto

lemma has_payload_data: "list_all (has_payload h) self \<Longrightarrow> list_all (\<lambda>s. seg_data s \<noteq> None) self"
  by (auto simp: list_all_iff has_payload_def split: option.splits)

lemma has_payload_update:
  "has_payload h s \<Longrightarrow> has_payload (h[a := dict_setitem (h ! a) ''text'' t]) s"
proof -
  assume p: "has_payload h s"
  then obtain b where b: "seg_data s = Some b" "b < length h"
    by (auto simp: has_payload_def split: option.splits)
  show ?thesis
  proof (cases "b = a")
    case True
    with b show ?thesis
      by (simp add: has_payload_def dict_setitem_def update_conv')
  next
    case False
    with b p show ?thesis by (simp add: has_payload_def)
  qed
qed

lemma iadd_text_owned:
  assumes "has_payload h l" "has_payload h x" "seg_type l = ''text''" "seg_type x = ''text''"
  shows "\<exists>a. seg_data l = Some a \<and> a < length h \<and>
           iadd_text h l x = Inr (h[a := snd (combine (''text'', h ! a) (''text'', h ! the (seg_data x)))])"
  using assms
  by (auto simp: has_payload_def iadd_text_def getattr_data_def getitem_data_def dict_getitem_def
        combine_def dict_get_def split: option.splits)

text \<open>On such a message \<^verbatim>\<open>reduce\<close> returns, and it merges neighbouring text.\<close>

lemma reduce_loop_view:
  "owned h (P @ l # suf) \<Longrightarrow>
     \<exists>h' self'. reduce_loop h (P @ l # suf) (Suc (length P)) = ((h', self'), None)
       \<and> view h' self' = view h P @ merge_adjacent (view h (l # suf))
       \<and> list_all (\<lambda>s. seg_data s \<noteq> None) self'"
proof (induction suf arbitrary: h P l)
  case Nil
  have "reduce_loop h (P @ [l]) (Suc (length P)) = ((h, P @ [l]), None)"
    by (subst reduce_loop.simps) simp
  with Nil show ?case
    using has_payload_data [of h "P @ [l]"] by (simp add: owned_def)
next
  case (Cons x xs)
  let ?self = "P @ l # x # xs"
  let ?idx = "Suc (length P)"
  have idx: "?idx < length ?self" "?self ! (?idx - 1) = l" "?self ! ?idx = x"
    by (simp_all add: nth_append)
  from Cons.prems have pl: "has_payload h l" and px: "has_payload h x"
    and pall: "list_all (has_payload h) ?self" and dist: "distinct (map seg_data ?self)"
    by (simp_all add: owned_def)
  show ?case
  proof (cases "seg_type l = ''text'' \<and> seg_type x = ''text''")
    case True
    then obtain a where a: "seg_data l = Some a" "a < length h"
      and iadd: "iadd_text h l x = Inr (h[a := snd (combine (''text'', h ! a) (''text'', h ! the (seg_data x)))])"
      using iadd_text_owned [OF pl px] by auto
    let ?h1 = "h[a := snd (combine (''text'', h ! a) (''text'', h ! the (seg_data x)))]"
    have step: "reduce_loop h ?self ?idx = reduce_loop ?h1 (P @ l # xs) ?idx"
      apply (subst reduce_loop.simps)
      using idx True iadd
      apply (simp add: delete_at_def)
      done
    have h1: "?h1 = h[a := dict_setitem (h ! a) ''text''
                  (dict_get (h ! a) ''text'' [] @ dict_get (h ! the (seg_data x)) ''text'' [])]"
      by (simp add: combine_def)
    have owned1: "owned ?h1 (P @ l # xs)"
      using pall dist unfolding owned_def h1
      by (auto simp: list_all_iff has_payload_update)
    from Cons.IH [OF owned1] obtain h' self' where
      r: "reduce_loop ?h1 (P @ l # xs) ?idx = ((h', self'), None)"
      and v: "view h' self' = view ?h1 P @ merge_adjacent (view ?h1 (l # xs))"
      and d: "list_all (\<lambda>s. seg_data s \<noteq> None) self'"
      by blast
    have nP: "Some a \<notin> set (map seg_data P)" and nxs: "Some a \<notin> set (map seg_data xs)"
      using dist a(1) by auto
    have dP: "list_all (\<lambda>s. seg_data s \<noteq> None) P" and dxs: "list_all (\<lambda>s. seg_data s \<noteq> None) xs"
      using has_payload_data [OF pall] by simp_all
    have vP: "view ?h1 P = view h P" by (rule view_update_other [OF nP dP])
    have vxs: "view ?h1 xs = view h xs" by (rule view_update_other [OF nxs dxs])
    have vl: "view ?h1 (l # xs) = combine (seg_type l, h ! a) (seg_type x, h ! the (seg_data x)) # view h xs"
      using a True vxs by (simp add: combine_def)
    have "merge_adjacent (view h (l # x # xs)) = merge_adjacent (view ?h1 (l # xs))"
      using True a(1) unfolding vl by simp
    with r v vP d step show ?thesis by simp
  next
    case False
    have step: "reduce_loop h ?self ?idx = reduce_loop h ((P @ [l]) @ x # xs) (Suc (length (P @ [l])))"
      apply (subst reduce_loop.simps)
      using idx False
      apply auto
      done
    from Cons.prems have "owned h ((P @ [l]) @ x # xs)" by simp
    from Cons.IH [OF this] obtain h' self' where
      r: "reduce_loop h ((P @ [l]) @ x # xs) (Suc (length (P @ [l]))) = ((h', self'), None)"
      and v: "view h' self' = view h (P @ [l]) @ merge_adjacent (view h (x # xs))"
      and d: "list_all (\<lambda>s. seg_data s \<noteq> None) self'"
      by blast
    from False have "merge_adjacent (view h (l # x # xs)) = view h [l] @ merge_adjacent (view h (x # xs))"
      by auto
    with r v d step show ?thesis by simp
  qed
qed

lemma reduce_view:
  assumes "owned h self"
  shows "\<exists>h' self'. reduce h self = ((h', self'), None)
           \<and> view h' self' = merge_adjacent (view h self)
           \<and> list_all (\<lambda>s. seg_data s \<noteq> None) self'"
proof (cases self)
  case Nil
  then show ?thesis by (simp add: reduce_def reduce_loop.simps)
next
  case (Cons l suf)
  have "reduce_loop h (l # suf) 0 = reduce_loop h ([] @ l # suf) (Suc (length ([] :: message)))"
    by (subst reduce_loop.simps) simp
  with reduce_loop_view [of h "[]" l suf] assms Cons show ?thesis
    by (simp add: reduce_def)
qed

text \<open>
  C9. \<^verbatim>\<open>reduce\<close> called again on the store and the message the first call left gives
  the same store, the same message and the same outcome; when it returns, no two
  neighbours of the message are both of type \<^verbatim>\<open>'text'\<close>; and on a message whose
  segments each have their own dict, with a payload in the text segments, it returns
  and leaves the contents merged: every run of neighbouring text segments has become
  its first segment, holding the concatenated payloads.
\<close>

theorem reduce_idempotent:
  "reduce (fst (fst (reduce h self))) (snd (fst (reduce h self))) = reduce h self
   \<and> (snd (reduce h self) = None \<longrightarrow> \<not> adjacent_text (snd (fst (reduce h self))))
   \<and> (owned h self \<longrightarrow>
        snd (reduce h self) = None
        \<and> view (fst (fst (reduce h self))) (snd (fst (reduce h self))) = merge_adjacent (view h self))"
proof -
  obtain h' self' r where r: "reduce h self = ((h', self'), r)"
    by (cases "reduce h self") auto
  have m0: "merged_before self 0" by (simp add: merged_before_def)
  with r have "reduce h' self' = ((h', self'), r)"
    unfolding reduce_def using reduce_loop_again [of self 0 h h' self' r] by simp
  moreover have "\<not> adjacent_text self'" if "r = None"
    using that r m0 reduce_loop_merged [of self 0 h h' self'] merged_not_adjacent [of self']
    by (simp add: reduce_def)
  moreover have "r = None \<and> view h' self' = merge_adjacent (view h self)" if "owned h self"
    using reduce_view [OF that] r by auto
  ultimately show ?thesis using r by simp
qed

theorem reduce_idempotent_witness:
  "owned [[(''text'', ''a'')], [(''text'', ''b'')], [(''file'', ''f'')]]
          [\<lparr>seg_type = ''text'', seg_data = Some 0\<rparr>, \<lparr>seg_type = ''text'', seg_data = Some 1\<rparr>,
           \<lparr>seg_type = ''image'', seg_data = Some 2\<rparr>]
   \<and> reduce [[(''text'', ''a'')], [(''text'', ''b'')], [(''file'', ''f'')]]
          [\<lparr>seg_type = ''text'', seg_data = Some 0\<rparr>, \<lparr>seg_type = ''text'', seg_data = Some 1\<rparr>,
           \<lparr>seg_type = ''image'', seg_data = Some 2\<rparr>]
     = (([[(''text'', ''ab'')], [(''text'', ''b'')], [(''file'', ''f'')]],
         [\<lparr>seg_type = ''text'', seg_data = Some 0\<rparr>, \<lparr>seg_type = ''image'', seg_data = Some 2\<rparr>]), None)
   \<and> reduce [[(''text'', ''ab'')], [(''text'', ''b'')], [(''file'', ''f'')]]
          [\<lparr>seg_type = ''text'', seg_data = Some 0\<rparr>, \<lparr>seg_type = ''image'', seg_data = Some 2\<rparr>]
     = (([[(''text'', ''ab'')], [(''text'', ''b'')], [(''file'', ''f'')]],
         [\<lparr>seg_type = ''text'', seg_data = Some 0\<rparr>, \<lparr>seg_type = ''image'', seg_data = Some 2\<rparr>]), None)
   \<and> \<not> adjacent_text [\<lparr>seg_type = ''text'', seg_data = Some 0\<rparr>, \<lparr>seg_type = ''image'', seg_data = Some 2\<rparr>]
   \<and> view [[(''text'', ''ab'')], [(''text'', ''b'')], [(''file'', ''f'')]]
          [\<lparr>seg_type = ''text'', seg_data = Some 0\<rparr>, \<lparr>seg_type = ''image'', seg_data = Some 2\<rparr>]
     = merge_adjacent [(''text'', [(''text'', ''a'')]), (''text'', [(''text'', ''b'')]), (''image'', [(''file'', ''f'')])]"
proof -
  have o: "owned [[(''text'', ''a'')], [(''text'', ''b'')], [(''file'', ''f'')]]
          [\<lparr>seg_type = ''text'', seg_data = Some 0\<rparr>, \<lparr>seg_type = ''text'', seg_data = Some 1\<rparr>,
           \<lparr>seg_type = ''image'', seg_data = Some 2\<rparr>]"
    by (simp add: owned_def has_payload_def)
  have r: "reduce [[(''text'', ''a'')], [(''text'', ''b'')], [(''file'', ''f'')]]
          [\<lparr>seg_type = ''text'', seg_data = Some 0\<rparr>, \<lparr>seg_type = ''text'', seg_data = Some 1\<rparr>,
           \<lparr>seg_type = ''image'', seg_data = Some 2\<rparr>]
     = (([[(''text'', ''ab'')], [(''text'', ''b'')], [(''file'', ''f'')]],
         [\<lparr>seg_type = ''text'', seg_data = Some 0\<rparr>, \<lparr>seg_type = ''image'', seg_data = Some 2\<rparr>]), None)"
    by code_simp
  have v: "view [[(''text'', ''a'')], [(''text'', ''b'')], [(''file'', ''f'')]]
          [\<lparr>seg_type = ''text'', seg_data = Some 0\<rparr>, \<lparr>seg_type = ''text'', seg_data = Some 1\<rparr>,
           \<lparr>seg_type = ''image'', seg_data = Some 2\<rparr>]
      = [(''text'', [(''text'', ''a'')]), (''text'', [(''text'', ''b'')]), (''image'', [(''file'', ''f'')])]"
    by simp
  from reduce_idempotent
         [of "[[(''text'', ''a'')], [(''text'', ''b'')], [(''file'', ''f'')]]"
             "[\<lparr>seg_type = ''text'', seg_data = Some 0\<rparr>, \<lparr>seg_type = ''text'', seg_data = Some 1\<rparr>,
               \<lparr>seg_type = ''image'', seg_data = Some 2\<rparr>]"]
  show ?thesis unfolding r v using o by simp
qed

lemma merge_adjacent_head:
  "merge_adjacent (b # vs) \<noteq> [] \<and> fst (hd (merge_adjacent (b # vs))) = fst b"
proof (induction vs arbitrary: b)
  case Nil
  show ?case by simp
next
  case (Cons c vs)
  show ?case using Cons [of "combine b c"] by (simp add: combine_def)
qed

lemma merge_adjacent_merged: "\<not> adjacent_text_contents (merge_adjacent vs)"
proof (induction vs rule: merge_adjacent.induct)
  case (1 a b vs)
  show ?case
  proof (cases "fst a = ''text'' \<and> fst b = ''text''")
    case True
    with 1 show ?thesis by simp
  next
    case False
    obtain c cs where c: "merge_adjacent (b # vs) = c # cs" "fst c = fst b"
      using merge_adjacent_head [of b vs] by (cases "merge_adjacent (b # vs)") auto
    with False 1 show ?thesis by auto
  qed
qed simp_all

lemma merge_adjacent_types:
  "list_all (\<lambda>v. fst v \<noteq> []) vs \<Longrightarrow> list_all (\<lambda>v. fst v \<noteq> []) (merge_adjacent vs)"
  by (induction vs rule: merge_adjacent.induct) (auto simp: combine_def)

text \<open>
  Appending what the generator yields, when no two neighbours are text, puts one new
  segment with a new dict behind the other.
\<close>

lemma next_item_yield:
  assumes "type \<noteq> []"
  shows "\<exists>ext a. next_item h (Yield type d)
             = Inr (h @ ext, ASegment \<lparr>seg_type = type, seg_data = Some a\<rparr>)
           \<and> a < length (h @ ext) \<and> (h @ ext) ! a = d"
proof (cases "d = []")
  case True
  have "next_item h (Yield type d)
          = Inr (h @ [d, []], ASegment \<lparr>seg_type = type, seg_data = Some (Suc (length h))\<rparr>)"
    using assms True
    by (simp add: next_item_def alloc_def segment_init_def segment_init_kw_def)
  moreover have "(h @ [d, []]) ! Suc (length h) = d"
    using True by (simp add: nth_append)
  ultimately show ?thesis by (intro exI [of _ "[d, []]"] exI [of _ "Suc (length h)"]) simp
next
  case False
  have "next_item h (Yield type d)
          = Inr (h @ [d], ASegment \<lparr>seg_type = type, seg_data = Some (length h)\<rparr>)"
    using assms False
    by (simp add: next_item_def alloc_def segment_init_def segment_init_kw_def)
  then show ?thesis by (intro exI [of _ "[d]"] exI [of _ "length h"]) simp
qed

lemma append_all_yield:
  "list_all (\<lambda>v. fst v \<noteq> []) ys \<Longrightarrow> \<not> adjacent_text_contents ys \<Longrightarrow>
   \<not> (self \<noteq> [] \<and> seg_type (last self) = ''text'' \<and> ys \<noteq> [] \<and> fst (hd ys) = ''text'') \<Longrightarrow>
     \<exists>ext new. append_all h self (map (\<lambda>(t, d). Yield t d) ys) None = ((h @ ext, self @ new), None)
        \<and> view (h @ ext) new = ys
        \<and> list_all (\<lambda>s. seg_data s \<noteq> None) new"
proof (induction ys arbitrary: h self)
  case Nil
  show ?case by (intro exI [of _ "[]"]) simp
next
  case (Cons y ys)
  obtain type d where y: "y = (type, d)" by (cases y)
  with Cons.prems have ty: "type \<noteq> []" by simp
  from next_item_yield [OF ty, of h d] obtain e1 a where
    nx: "next_item h (Yield type d) = Inr (h @ e1, ASegment \<lparr>seg_type = type, seg_data = Some a\<rparr>)"
    and a: "a < length (h @ e1)" "(h @ e1) ! a = d"
    by blast
  let ?s = "\<lparr>seg_type = type, seg_data = Some a\<rparr>"
  from Cons.prems(3) y
  have ap: "append_obj (h @ e1) self (ASegment ?s) = ((h @ e1, self @ [?s]), None)"
    by (auto simp: append_obj_def append_segment_def)
  have types: "list_all (\<lambda>v. fst v \<noteq> []) ys" using Cons.prems(1) by simp
  have adj: "\<not> adjacent_text_contents ys" using Cons.prems(2) by (cases ys) auto
  have lst: "\<not> ((self @ [?s]) \<noteq> [] \<and> seg_type (last (self @ [?s])) = ''text''
                 \<and> ys \<noteq> [] \<and> fst (hd ys) = ''text'')"
    using Cons.prems(2) y by (cases ys) auto
  from Cons.IH [OF types adj lst, of "h @ e1"] obtain e2 new where
    r: "append_all (h @ e1) (self @ [?s]) (map (\<lambda>(t, d). Yield t d) ys) None
          = (((h @ e1) @ e2, (self @ [?s]) @ new), None)"
    and v: "view ((h @ e1) @ e2) new = ys"
    and dn: "list_all (\<lambda>s. seg_data s \<noteq> None) new"
    by blast
  have "((h @ e1) @ e2) ! a = d" by (metis a nth_append_left)
  with v y have "view (h @ e1 @ e2) (?s # new) = y # ys" by simp
  moreover have "append_all h self (map (\<lambda>(t, d). Yield t d) (y # ys)) None
                   = ((h @ e1 @ e2, self @ ?s # new), None)"
    using y nx ap r by simp
  ultimately show ?case using dn
    by (intro exI [of _ "e1 @ e2"] exI [of _ "?s # new"]) simp
qed

lemma contents_view:
  "list_all (\<lambda>s. seg_data s \<noteq> None) self \<Longrightarrow>
     contents h self = map (\<lambda>v. (fst v, Some (snd v))) (view h self)"
  by (induction self) (auto simp: contents_def)

lemma content_ok_payload: "content_ok (type, d) \<Longrightarrow> type = ''text'' \<Longrightarrow> map_of d ''text'' \<noteq> None"
  using content_ok_text [of "(type, d)"] by auto

lemma roundtrip_safe_owned: "roundtrip_safe h self \<Longrightarrow> owned h self"
proof -
  assume safe: "roundtrip_safe h self"
  have "has_payload h s" if "s \<in> set self" for s
  proof -
    from safe that obtain a where "seg_data s = Some a" "a < length h" "content_ok (seg_type s, h ! a)"
      by (auto simp: roundtrip_safe_def list_all_iff split: option.splits)
    then show ?thesis using content_ok_payload [of "seg_type s" "h ! a"]
      by (auto simp: has_payload_def)
  qed
  with safe show ?thesis by (simp add: owned_def roundtrip_safe_def list_all_iff)
qed

lemma roundtrip_safe_view: "roundtrip_safe h self \<Longrightarrow> list_all content_ok (view h self)"
  by (induction self) (auto simp: roundtrip_safe_def split: option.splits)

lemma join_params_empty:
  "list_all param_ok d \<Longrightarrow> (join '','' (map param_str d) = []) = (d = [])"
proof (cases d)
  case Nil
  then show ?thesis by simp
next
  case (Cons p d')
  assume "list_all param_ok d"
  with Cons have "param_str p \<noteq> []" using param_str_head [of p] by auto
  with Cons show ?thesis by (simp add: join_params)
qed

lemma comma_join_params:
  "d \<noteq> [] \<Longrightarrow> CHR '','' # join '','' (map param_str d) = params_str d"
  by (cases d) (simp_all add: join_params params_str_def)

lemma escaped_params:
  "list_all (\<lambda>p. plain_value (snd p)) d \<Longrightarrow>
     map (\<lambda>(k, v). k @ CHR ''='' # escape v True) d = map param_str d"
  by (induction d) (auto simp: param_str_def escape_plain_value)

lemma segment_str_render:
  assumes "seg_data s = Some a" "content_ok (seg_type s, h ! a)"
  shows "segment_str h s = Inr (render (seg_type s, h ! a))"
proof (cases "seg_type s = ''text''")
  case True
  with assms show ?thesis
    using content_ok_text [of "(seg_type s, h ! a)"]
    by (auto simp: segment_str_def getattr_data_def getitem_data_def render_def dict_get_def
          escape_plain_text)
next
  case False
  from content_ok_token [of "(seg_type s, h ! a)"] assms False
  have p: "list_all param_ok (h ! a)" and v: "list_all (\<lambda>p. plain_value (snd p)) (h ! a)"
    by simp_all
  show ?thesis
  proof (cases "h ! a = []")
    case True
    with False assms(1) show ?thesis
      by (simp add: segment_str_def getattr_data_def getitem_data_def render_def token_def
            params_str_def)
  next
    case False
    note ne = False
    with \<open>seg_type s \<noteq> ''text''\<close> assms(1) show ?thesis
      by (simp add: segment_str_def getattr_data_def getitem_data_def render_def token_def
            Let_def escaped_params [OF v] join_params_empty [OF p] comma_join_params [OF ne])
  qed
qed

lemma message_str_render:
  "roundtrip_safe h self \<Longrightarrow> message_str h self = Inr (concat (map render (view h self)))"
proof (induction self)
  case Nil
  show ?case by simp
next
  case (Cons s self)
  then obtain a where a: "seg_data s = Some a" "content_ok (seg_type s, h ! a)"
    by (auto simp: roundtrip_safe_def split: option.splits)
  from Cons have "message_str h self = Inr (concat (map render (view h self)))"
    by (simp add: roundtrip_safe_def)
  with segment_str_render [OF a] a(1) show ?case by simp
qed

text \<open>
  Where escaping changes nothing the round trip holds. For every message whose
  segments each have their own params dict, whose text segments hold exactly a
  non-empty payload without \<^verbatim>\<open>&\<close>, \<^verbatim>\<open>[\<close>, \<^verbatim>\<open>]\<close>, and whose other segments have a type
  and keys of key characters and values without \<^verbatim>\<open>&\<close>, \<^verbatim>\<open>[\<close>, \<^verbatim>\<open>]\<close> and comma: rendering
  succeeds, parsing the rendered string succeeds, \<^verbatim>\<open>reduce\<close> returns, and the parsed
  message has the contents of the reduced one. The condition is sufficient, not
  necessary.
\<close>

lemma roundtrip_unescaped:
  assumes "roundtrip_safe h self"
  shows "\<exists>str h1 self1 h2 self2.
           message_str h self = Inr str
         \<and> message_init h0 (AStr str) = (h1, Inr self1)
         \<and> reduce h self = ((h2, self2), None)
         \<and> contents h1 self1 = contents h2 self2"
proof -
  let ?vs = "view h self"
  let ?str = "concat (map render ?vs)"
  have ok: "list_all content_ok ?vs" by (rule roundtrip_safe_view [OF assms])
  have str: "message_str h self = Inr ?str" by (rule message_str_render [OF assms])
  have split: "split_iter ?str = (merge_adjacent ?vs, None)"
    using parse_rendered [OF ok, of "[]"] by (simp add: split_iter_def pending_def)
  have "list_all (\<lambda>v. fst v \<noteq> []) ?vs"
    using ok by (auto simp: list_all_iff content_ok_def key_string_def split: if_splits)
  then have types: "list_all (\<lambda>v. fst v \<noteq> []) (merge_adjacent ?vs)"
    by (rule merge_adjacent_types)
  from append_all_yield [OF types merge_adjacent_merged, of "[]" h0]
  obtain ext new where
    ap: "append_all h0 [] (map (\<lambda>(t, d). Yield t d) (merge_adjacent ?vs)) None = ((h0 @ ext, new), None)"
    and v1: "view (h0 @ ext) new = merge_adjacent ?vs"
    and d1: "list_all (\<lambda>s. seg_data s \<noteq> None) new"
    by auto
  have init: "message_init h0 (AStr ?str) = (h0 @ ext, Inr new)"
    using split ap by (simp add: message_init_def extend_def items_of_def extend_items_def)
  from reduce_view [OF roundtrip_safe_owned [OF assms]] obtain h2 self2 where
    r: "reduce h self = ((h2, self2), None)"
    and v2: "view h2 self2 = merge_adjacent ?vs"
    and d2: "list_all (\<lambda>s. seg_data s \<noteq> None) self2"
    by blast
  have "contents (h0 @ ext) new = contents h2 self2"
    by (simp add: contents_view [OF d1] contents_view [OF d2] v1 v2)
  with str init r show ?thesis by blast
qed

lemma roundtrip_unescaped_example:
  "roundtrip_safe [[(''text'', ''hello'')], [(''text'', '' '')], [(''qq'', ''123'')]]
     [\<lparr>seg_type = ''text'', seg_data = Some 0\<rparr>, \<lparr>seg_type = ''text'', seg_data = Some 1\<rparr>,
      \<lparr>seg_type = ''at'', seg_data = Some 2\<rparr>]
   \<and> (\<exists>str h1 self1 h2 self2.
         message_str [[(''text'', ''hello'')], [(''text'', '' '')], [(''qq'', ''123'')]]
           [\<lparr>seg_type = ''text'', seg_data = Some 0\<rparr>, \<lparr>seg_type = ''text'', seg_data = Some 1\<rparr>,
            \<lparr>seg_type = ''at'', seg_data = Some 2\<rparr>] = Inr str
       \<and> message_init [] (AStr str) = (h1, Inr self1)
       \<and> reduce [[(''text'', ''hello'')], [(''text'', '' '')], [(''qq'', ''123'')]]
           [\<lparr>seg_type = ''text'', seg_data = Some 0\<rparr>, \<lparr>seg_type = ''text'', seg_data = Some 1\<rparr>,
            \<lparr>seg_type = ''at'', seg_data = Some 2\<rparr>] = ((h2, self2), None)
       \<and> contents h1 self1 = contents h2 self2)"
proof -
  have safe: "roundtrip_safe [[(''text'', ''hello'')], [(''text'', '' '')], [(''qq'', ''123'')]]
     [\<lparr>seg_type = ''text'', seg_data = Some 0\<rparr>, \<lparr>seg_type = ''text'', seg_data = Some 1\<rparr>,
      \<lparr>seg_type = ''at'', seg_data = Some 2\<rparr>]"
    by (simp add: roundtrip_safe_def content_ok_def dict_get_def plain_text_def plain_value_def
          key_string_def is_key_char_def)
  from safe roundtrip_unescaped [OF safe, of "[]"] show ?thesis by simp
qed

text \<open>
  The parser yields no empty text segment: the message of one empty text segment
  renders as the empty string, which parses to the empty message, while \<^verbatim>\<open>reduce\<close>
  keeps the segment.
\<close>

lemma roundtrip_empty_text:
  "message_str [[(''text'', '''')]] [\<lparr>seg_type = ''text'', seg_data = Some 0\<rparr>] = Inr ''''
   \<and> message_init [] (AStr '''') = ([], Inr [])
   \<and> reduce [[(''text'', '''')]] [\<lparr>seg_type = ''text'', seg_data = Some 0\<rparr>]
       = (([[(''text'', '''')]], [\<lparr>seg_type = ''text'', seg_data = Some 0\<rparr>]), None)
   \<and> contents [] [] \<noteq> contents [[(''text'', '''')]] [\<lparr>seg_type = ''text'', seg_data = Some 0\<rparr>]"
  by code_simp

text \<open>
  C4. The round trip fails where escaping is exercised, because parsing does not
  undo it. The message of one share segment with the params \<^verbatim>\<open>{title: "a,b"}\<close>, whose
  value holds no escape sequence and which is the example of the specification
  itself, is composed as \<^verbatim>\<open>[CQ:share,title=a&#44;b]\<close>; parsing that string gives the
  params \<^verbatim>\<open>{title: "a&#44;b"}\<close>, while \<^verbatim>\<open>reduce\<close> leaves the message as it is. The
  same happens to a text segment: \<^verbatim>\<open>a&b\<close> is composed as \<^verbatim>\<open>a&amp;b\<close> and read back as
  \<^verbatim>\<open>a&amp;b\<close>.
\<close>

theorem roundtrip_fails_on_escaped_value:
  "\<not> has_escape_sequence ''a,b''
   \<and> message_str [[(''title'', ''a,b'')]] [\<lparr>seg_type = ''share'', seg_data = Some 0\<rparr>]
       = Inr ''[CQ:share,title=a&#44;b]''
   \<and> message_init [] (AStr ''[CQ:share,title=a&#44;b]'')
       = ([[(''title'', ''a&#44;b'')]], Inr [\<lparr>seg_type = ''share'', seg_data = Some 0\<rparr>])
   \<and> reduce [[(''title'', ''a,b'')]] [\<lparr>seg_type = ''share'', seg_data = Some 0\<rparr>]
       = (([[(''title'', ''a,b'')]], [\<lparr>seg_type = ''share'', seg_data = Some 0\<rparr>]), None)
   \<and> contents [[(''title'', ''a&#44;b'')]] [\<lparr>seg_type = ''share'', seg_data = Some 0\<rparr>]
       = [(''share'', Some [(''title'', ''a&#44;b'')])]
   \<and> contents [[(''title'', ''a,b'')]] [\<lparr>seg_type = ''share'', seg_data = Some 0\<rparr>]
       = [(''share'', Some [(''title'', ''a,b'')])]
   \<and> contents [[(''title'', ''a&#44;b'')]] [\<lparr>seg_type = ''share'', seg_data = Some 0\<rparr>]
       \<noteq> contents [[(''title'', ''a,b'')]] [\<lparr>seg_type = ''share'', seg_data = Some 0\<rparr>]
   \<and> \<not> has_escape_sequence ''a&b''
   \<and> message_str [[(''text'', ''a&b'')]] [\<lparr>seg_type = ''text'', seg_data = Some 0\<rparr>]
       = Inr ''a&amp;b''
   \<and> message_init [] (AStr ''a&amp;b'')
       = ([[(''text'', ''a&amp;b'')]], Inr [\<lparr>seg_type = ''text'', seg_data = Some 0\<rparr>])
   \<and> reduce [[(''text'', ''a&b'')]] [\<lparr>seg_type = ''text'', seg_data = Some 0\<rparr>]
       = (([[(''text'', ''a&b'')]], [\<lparr>seg_type = ''text'', seg_data = Some 0\<rparr>]), None)"
  by code_simp

end
